theory Spec2Isabelle
  imports Main "HOL-Library.Multiset" "HOL-Library.Sublist"
begin

section \<open>Python values and exceptions\<close>

text \<open>
  The client works on the values that \<^verbatim>\<open>resp.json()\<close> returns: \<^verbatim>\<open>None\<close>, booleans,
  integers, strings, lists and dicts. A dict is held as the list of its items, in
  insertion order; a key is looked up with \<open>map_of\<close>. JSON numbers are integers here
  (ids and vote counts); floating point numbers are outside the model.
\<close>

datatype json =
    JNull
  | JBool bool
  | JInt int
  | JStr string
  | JArr "json list"
  | JObj "(string \<times> json) list"

text \<open>
  The exceptions that the operations can raise. \<open>ClientError\<close> stands for a failure of
  the HTTP transport; \<open>ValueError\<close> covers the parser errors of the date library and of
  \<^verbatim>\<open>int()\<close>.
\<close>

datatype py_error =
    KeyError
  | IndexError
  | TypeError
  | AttributeError
  | ValueError
  | OverflowError
  | ClientError

type_synonym 'a result = "py_error + 'a"

definition bind :: "'a result \<Rightarrow> ('a \<Rightarrow> 'b result) \<Rightarrow> 'b result" where
  "bind m f = (case m of Inl e \<Rightarrow> Inl e | Inr x \<Rightarrow> f x)"

text \<open>A list comprehension whose element expression may raise: the first error wins.\<close>

fun mapM :: "('a \<Rightarrow> 'b result) \<Rightarrow> 'a list \<Rightarrow> 'b list result" where
  "mapM f [] = Inr []"
| "mapM f (x # xs) = bind (f x) (\<lambda>y. bind (mapM f xs) (\<lambda>ys. Inr (y # ys)))"

text \<open>Truth value testing, as in \<^verbatim>\<open>while page["p"]\<close> and \<^verbatim>\<open>x or None\<close>.\<close>

fun truthy :: "json \<Rightarrow> bool" where
  "truthy JNull = False"
| "truthy (JBool b) = b"
| "truthy (JInt n) = (n \<noteq> 0)"
| "truthy (JStr s) = (s \<noteq> [])"
| "truthy (JArr xs) = (xs \<noteq> [])"
| "truthy (JObj kvs) = (kvs \<noteq> [])"

text \<open>\<^verbatim>\<open>x or None\<close>\<close>

definition or_none :: "json \<Rightarrow> json" where
  "or_none x = (if truthy x then x else JNull)"

text \<open>\<^verbatim>\<open>x[k]\<close> with a string key \<open>k\<close>.\<close>

fun subscript :: "json \<Rightarrow> string \<Rightarrow> json result" where
  "subscript (JObj kvs) k = (case map_of kvs k of None \<Rightarrow> Inl KeyError | Some v \<Rightarrow> Inr v)"
| "subscript _ k = Inl TypeError"

text \<open>\<^verbatim>\<open>x[i]\<close> with an integer \<open>i\<close>; a negative index counts from the end.\<close>

definition list_index :: "'a list \<Rightarrow> int \<Rightarrow> 'a result" where
  "list_index xs i =
     (if 0 \<le> i \<and> i < int (length xs) then Inr (xs ! nat i)
      else if i < 0 \<and> - int (length xs) \<le> i then Inr (xs ! nat (int (length xs) + i))
      else Inl IndexError)"

fun index :: "json \<Rightarrow> int \<Rightarrow> json result" where
  "index (JArr xs) i = list_index xs i"
| "index (JStr s) i = bind (list_index s i) (\<lambda>c. Inr (JStr [c]))"
| "index (JObj kvs) i = Inl KeyError"
| "index _ i = Inl TypeError"

text \<open>\<^verbatim>\<open>x.get(k)\<close>: only a dict has the method.\<close>

fun py_get :: "json \<Rightarrow> string \<Rightarrow> json result" where
  "py_get (JObj kvs) k = (case map_of kvs k of None \<Rightarrow> Inr JNull | Some v \<Rightarrow> Inr v)"
| "py_get _ k = Inl AttributeError"

text \<open>
  Iteration (\<^verbatim>\<open>for e in x\<close>, \<^verbatim>\<open>list.extend(x)\<close>): a list gives its elements, a string
  its characters, a dict its keys.
\<close>

fun py_iter :: "json \<Rightarrow> json list result" where
  "py_iter (JArr xs) = Inr xs"
| "py_iter (JStr s) = Inr (map (\<lambda>c. JStr [c]) s)"
| "py_iter (JObj kvs) = Inr (map (\<lambda>kv. JStr (fst kv)) kvs)"
| "py_iter _ = Inl TypeError"

text \<open>
  \<^verbatim>\<open>a == b\<close>. A boolean equals the integer 0 or 1; lists are compared element by
  element, dicts item by item whatever their order.
\<close>

function py_eq :: "json \<Rightarrow> json \<Rightarrow> bool" where
  "py_eq JNull b = (b = JNull)"
| "py_eq (JBool x) b =
     (case b of JBool y \<Rightarrow> x = y | JInt n \<Rightarrow> (if x then 1 else 0) = n | _ \<Rightarrow> False)"
| "py_eq (JInt m) b =
     (case b of JBool y \<Rightarrow> m = (if y then 1 else 0) | JInt n \<Rightarrow> m = n | _ \<Rightarrow> False)"
| "py_eq (JStr s) b = (b = JStr s)"
| "py_eq (JArr xs) b =
     (case b of JArr ys \<Rightarrow> list_all2 py_eq xs ys | _ \<Rightarrow> False)"
| "py_eq (JObj kvs) b =
     (case b of
        JObj kvs' \<Rightarrow>
          length kvs = length kvs' \<and>
          (\<forall>kv \<in> set kvs. case map_of kvs' (fst kv) of
                             None \<Rightarrow> False
                           | Some v' \<Rightarrow> py_eq (snd kv) v')
      | _ \<Rightarrow> False)"
  by pat_completeness auto
termination
proof (relation "measure (\<lambda>p. size (fst p))")
  show "wf (measure (\<lambda>p. size (fst p)))" by simp
next
  fix xs :: "json list" and b :: json and x21 :: "json list" and x y :: json
  assume "x \<in> set xs"
  then have "size x < Suc (size_list size xs)"
    by (induction xs) auto
  then show "((x, y), JArr xs, b) \<in> measure (\<lambda>p. size (fst p))" by simp
next
  fix kvs :: "(string \<times> json) list" and b :: json and x22 :: "(string \<times> json) list"
    and kv :: "string \<times> json" and v' :: json
  assume "kv \<in> set kvs"
  then have "size (snd kv) < Suc (size_list (\<lambda>x. Suc (size (snd x))) kvs)"
    by (induction kvs) auto
  then show "((snd kv, v'), JObj kvs, b) \<in> measure (\<lambda>p. size (fst p))"
    by (simp add: size_prod_simp)
qed

text \<open>\<^verbatim>\<open>hash(k)\<close> of a dict key: lists and dicts are unhashable.\<close>

fun hashable :: "json \<Rightarrow> bool" where
  "hashable (JArr xs) = False"
| "hashable (JObj kvs) = False"
| "hashable _ = True"

text \<open>
  \<^verbatim>\<open>d[k] = v\<close> on a dict with arbitrary hashable keys, held as the list of its items in
  insertion order: an existing key keeps its place (and its key object) and takes the
  new value.
\<close>

fun dict_set :: "(json \<times> json) list \<Rightarrow> json \<Rightarrow> json \<Rightarrow> (json \<times> json) list" where
  "dict_set [] k v = [(k, v)]"
| "dict_set ((k', v') # d) k v =
     (if py_eq k' k then (k', v) # d else (k', v') # dict_set d k v)"


section \<open>Library functions the client calls\<close>

text \<open>
  A \<^verbatim>\<open>datetime\<close>: the reading of the wall clock, in seconds from 1970-01-01T00:00:00,
  and the offset of its time zone from UTC in seconds (\<open>None\<close> for a naive value).
\<close>

record datetime =
  wall :: int
  utcoffset :: "int option"

text \<open>
  The date parser (\<^verbatim>\<open>dateutil.parser.parse\<close>), the offset of the system's local time
  zone and \<^verbatim>\<open>int()\<close> on strings belong to libraries outside the repository: the model
  takes them as parameters.
\<close>

record lib =
  parse :: "string \<Rightarrow> datetime result"
  local_utcoffset :: "int \<Rightarrow> int"
  int_of_str :: "string \<Rightarrow> int result"

text \<open>\<^verbatim>\<open>dateparser.parse(v)\<close>: the parser takes a string.\<close>

definition dateparser_parse :: "lib \<Rightarrow> json \<Rightarrow> datetime result" where
  "dateparser_parse L v = (case v of JStr s \<Rightarrow> parse L s | _ \<Rightarrow> Inl TypeError)"

text \<open>
  \<^verbatim>\<open>d.astimezone(pytz.utc)\<close>: the same instant on the UTC clock; a naive value is taken
  as local time.
\<close>

definition astimezone_utc :: "lib \<Rightarrow> datetime \<Rightarrow> datetime" where
  "astimezone_utc L d =
     (case utcoffset d of
        Some off \<Rightarrow> \<lparr>wall = wall d - off, utcoffset = Some 0\<rparr>
      | None \<Rightarrow> \<lparr>wall = wall d - local_utcoffset L (wall d), utcoffset = Some 0\<rparr>)"

text \<open>An id argument of the public operations: \<^verbatim>\<open>Union[int, str]\<close>.\<close>

datatype id_arg = IntId int | StrId string

fun py_int :: "lib \<Rightarrow> id_arg \<Rightarrow> int result" where
  "py_int L (IntId n) = Inr n"
| "py_int L (StrId s) = int_of_str L s"

section \<open>Data classes\<close>

text \<open>
  Modelled from the spec: the module \<^verbatim>\<open>dataclasses\<close> of the package (User, Thread,
  Posting) is not among the sources; the fields are those of the data model of the
  specification and of the constructor calls in \<^verbatim>\<open>api.py\<close>. A field that takes a value
  of the response as it is has type \<open>json\<close>, with \<open>JNull\<close> for \<^verbatim>\<open>None\<close>.
\<close>

record user =
  user_id :: json
  name :: json

record thread =
  thread_id :: json
  published :: datetime
  ticker_id :: int
  title :: json
  message :: json
  user :: user
  upvotes :: json
  downvotes :: json

record posting =
  posting_id :: json
  parent_id :: json
  user :: user
  thread_id :: "int option"
  published :: datetime
  title :: json
  message :: json
  upvotes :: json
  downvotes :: json

section \<open>The backend\<close>

text \<open>
  A request is the URL that the client builds, held as its parts. The backend answers a
  request with a JSON value or a transport error, and may change its own state.
\<close>

datatype request =
    Redcontent id_arg int
  | Postings id_arg id_arg "json option"
  | GetForumInfo id_arg
  | ThreadsByForumQuery json nat int

type_synonym 's backend = "request \<Rightarrow> 's \<Rightarrow> json result \<times> 's"

section \<open>Ticker API\<close>

text \<open>The element expression of the comprehension in \<^verbatim>\<open>get_ticker_threads\<close>.\<close>

definition to_thread :: "lib \<Rightarrow> id_arg \<Rightarrow> json \<Rightarrow> thread result" where
  "to_thread L ticker_arg t =
     bind (subscript t ''id'') (\<lambda>tid.
     bind (subscript t ''ctd'') (\<lambda>ctd.
     bind (dateparser_parse L ctd) (\<lambda>d.
     bind (py_int L ticker_arg) (\<lambda>ticker.
     bind (py_get t ''hl'') (\<lambda>hl.
     bind (py_get t ''cm'') (\<lambda>cm.
     bind (subscript t ''cid'') (\<lambda>cid.
     bind (subscript t ''cn'') (\<lambda>cn.
     bind (subscript t ''vp'') (\<lambda>vp.
     bind (subscript t ''vn'') (\<lambda>vn.
       Inr \<lparr>thread.thread_id = tid,
            thread.published = astimezone_utc L d,
            thread.ticker_id = ticker,
            thread.title = or_none hl,
            thread.message = or_none cm,
            thread.user = \<lparr>user_id = cid, name = cn\<rparr>,
            thread.upvotes = vp,
            thread.downvotes = vn\<rparr>))))))))))"

definition get_ticker_threads ::
  "lib \<Rightarrow> 's backend \<Rightarrow> id_arg \<Rightarrow> 's \<Rightarrow> thread list result \<times> 's" where
  "get_ticker_threads L backend ticker_arg s =
     (case backend (Redcontent ticker_arg 1000000) s of
        (Inl e, s') \<Rightarrow> (Inl e, s')
      | (Inr resp, s') \<Rightarrow>
          (bind (subscript resp ''rcs'') (\<lambda>rcs.
           bind (py_iter rcs) (mapM (to_thread L ticker_arg))), s'))"

text \<open>
  \<^verbatim>\<open>_get_thread_postings_page\<close>: the cursor is part of the URL only when it is truthy.
\<close>

definition get_thread_postings_page ::
  "'s backend \<Rightarrow> id_arg \<Rightarrow> id_arg \<Rightarrow> json \<Rightarrow> 's \<Rightarrow> json result \<times> 's" where
  "get_thread_postings_page backend ticker_arg thread_arg skip_to s =
     backend (Postings ticker_arg thread_arg (if truthy skip_to then Some skip_to else None)) s"

text \<open>
  The \<^verbatim>\<open>while\<close> loop of \<^verbatim>\<open>get_thread_postings\<close>. Nothing bounds the number of its
  rounds: the result \<open>None\<close> is a loop that does not end. The source reads \<^verbatim>\<open>page["p"]\<close>
  three times in a round (the test, \<^verbatim>\<open>extend\<close>, the cursor); the page does not change in
  between, so the model reads it once.
\<close>

partial_function (option) paginate ::
  "'s backend \<Rightarrow> id_arg \<Rightarrow> id_arg \<Rightarrow> json list \<Rightarrow> json \<Rightarrow> 's \<Rightarrow> (json list result \<times> 's) option"
where
  "paginate backend ticker_arg thread_arg postings page s =
     (case subscript page ''p'' of
        Inl e \<Rightarrow> Some (Inl e, s)
      | Inr p \<Rightarrow>
          if \<not> truthy p then Some (Inr postings, s)
          else
            (case py_iter p of
               Inl e \<Rightarrow> Some (Inl e, s)
             | Inr items \<Rightarrow>
                 (case bind (index p (- 1)) (\<lambda>l. subscript l ''pid'') of
                    Inl e \<Rightarrow> Some (Inl e, s)
                  | Inr skip_to \<Rightarrow>
                      (case get_thread_postings_page backend ticker_arg thread_arg skip_to s of
                         (Inl e, s') \<Rightarrow> Some (Inl e, s')
                       | (Inr page', s') \<Rightarrow>
                           paginate backend ticker_arg thread_arg (postings @ items) page' s'))))"

declare paginate.simps [code]

text \<open>The first request and the loop: the raw postings of all pages.\<close>

definition fetch_pages ::
  "'s backend \<Rightarrow> id_arg \<Rightarrow> id_arg \<Rightarrow> 's \<Rightarrow> (json list result \<times> 's) option" where
  "fetch_pages backend ticker_arg thread_arg s =
     (case get_thread_postings_page backend ticker_arg thread_arg JNull s of
        (Inl e, s') \<Rightarrow> Some (Inl e, s')
      | (Inr page, s') \<Rightarrow> paginate backend ticker_arg thread_arg [] page s')"

text \<open>\<^verbatim>\<open>{p["pid"]: p for p in postings}\<close>\<close>

fun dict_by_pid :: "json list \<Rightarrow> (json \<times> json) list \<Rightarrow> (json \<times> json) list result" where
  "dict_by_pid [] d = Inr d"
| "dict_by_pid (p # ps) d =
     bind (subscript p ''pid'') (\<lambda>k.
       if hashable k then dict_by_pid ps (dict_set d k p) else Inl TypeError)"

text \<open>\<^verbatim>\<open>list({...}.values())\<close>\<close>

definition remove_duplicates :: "json list \<Rightarrow> json list result" where
  "remove_duplicates postings = bind (dict_by_pid postings []) (\<lambda>d. Inr (map snd d))"

text \<open>The element expression of the comprehension in \<^verbatim>\<open>get_thread_postings\<close>.\<close>

definition to_ticker_posting :: "lib \<Rightarrow> id_arg \<Rightarrow> json \<Rightarrow> posting result" where
  "to_ticker_posting L thread_arg p =
     bind (subscript p ''pid'') (\<lambda>pid.
     bind (subscript p ''ppid'') (\<lambda>ppid.
     bind (subscript p ''cid'') (\<lambda>cid.
     bind (subscript p ''cn'') (\<lambda>cn.
     bind (py_int L thread_arg) (\<lambda>thread.
     bind (subscript p ''cd'') (\<lambda>cd.
     bind (dateparser_parse L cd) (\<lambda>d.
     bind (py_get p ''hl'') (\<lambda>hl.
     bind (py_get p ''tx'') (\<lambda>tx.
     bind (subscript p ''vp'') (\<lambda>vp.
     bind (subscript p ''vn'') (\<lambda>vn.
       Inr \<lparr>posting_id = pid,
            parent_id = ppid,
            user = \<lparr>user_id = cid, name = cn\<rparr>,
            posting.thread_id = Some thread,
            published = astimezone_utc L d,
            title = or_none hl,
            message = or_none tx,
            upvotes = vp,
            downvotes = vn\<rparr>)))))))))))"

definition get_thread_postings ::
  "lib \<Rightarrow> 's backend \<Rightarrow> id_arg \<Rightarrow> id_arg \<Rightarrow> 's \<Rightarrow> (posting list result \<times> 's) option" where
  "get_thread_postings L backend ticker_arg thread_arg s =
     (case fetch_pages backend ticker_arg thread_arg s of
        None \<Rightarrow> None
      | Some (Inl e, s') \<Rightarrow> Some (Inl e, s')
      | Some (Inr postings, s') \<Rightarrow>
          Some (bind (remove_duplicates postings) (mapM (to_ticker_posting L thread_arg)), s'))"


section \<open>Forum API\<close>

definition get_forum_id :: "'s backend \<Rightarrow> id_arg \<Rightarrow> 's \<Rightarrow> json result \<times> 's" where
  "get_forum_id backend article_id s =
     (case backend (GetForumInfo article_id) s of
        (Inl e, s') \<Rightarrow> (Inl e, s')
      | (Inr response, s') \<Rightarrow>
          (bind (subscript response ''data'') (\<lambda>d.
           bind (subscript d ''getForumByContextUri'') (\<lambda>f.
             subscript f ''id'')), s'))"

text \<open>
  The measure of the recursion of \<open>linearize\<close>: only a dict has replies to descend
  into.
\<close>

fun weight :: "json \<Rightarrow> nat" where
  "weight (JObj kvs) = Suc (size (JObj kvs))"
| "weight _ = 0"

definition iter_weight :: "json \<Rightarrow> nat" where
  "iter_weight edges = (case py_iter edges of Inl e \<Rightarrow> 0 | Inr es \<Rightarrow> sum_list (map weight es))"

text \<open>\<^verbatim>\<open>linearize\<close>, the local function of \<^verbatim>\<open>get_forum_postings\<close>, and its \<^verbatim>\<open>for\<close> loop.\<close>

function linearize :: "json \<Rightarrow> json list result"
  and linearize_loop :: "json list \<Rightarrow> json list \<Rightarrow> json list result" where
  "linearize edges =
     (case py_iter edges of
        Inl err \<Rightarrow> Inl err
      | Inr es \<Rightarrow> linearize_loop es es)"
| "linearize_loop [] postings = Inr postings"
| "linearize_loop (e # es) postings =
     (case subscript e ''replies'' of
        Inl err \<Rightarrow> Inl err
      | Inr r \<Rightarrow>
          (case linearize r of
             Inl err \<Rightarrow> Inl err
           | Inr sub \<Rightarrow> linearize_loop es (postings @ sub)))"
  by pat_completeness auto
termination
proof (relation "measure (\<lambda>x. case x of
          Inl edges \<Rightarrow> 2 * iter_weight edges + 2
        | Inr (es, postings) \<Rightarrow> 2 * sum_list (map weight es) + 1)")
  show "wf (measure (\<lambda>x. case x of
          Inl edges \<Rightarrow> 2 * iter_weight edges + 2
        | Inr (es, postings) \<Rightarrow> 2 * sum_list (map weight es) + 1))" by simp
next
  fix edges :: json and es :: "json list"
  assume "py_iter edges = Inr es"
  then show "(Inr (es, es), Inl edges) \<in> measure (\<lambda>x. case x of
          Inl edges \<Rightarrow> 2 * iter_weight edges + 2
        | Inr (es, postings) \<Rightarrow> 2 * sum_list (map weight es) + 1)"
    by (simp add: iter_weight_def)
next
  fix e :: json and es postings :: "json list" and r :: json
  assume r: "subscript e ''replies'' = Inr r"
  then obtain kvs where e: "e = JObj kvs" and look: "map_of kvs ''replies'' = Some r"
    by (cases e) (auto split: option.splits)
  have le: "sum_list (map weight xs) \<le> size_list size xs" for xs
  proof (induction xs)
    case Nil show ?case by simp
  next
    case (Cons x xs) 
    have "weight x \<le> Suc (size x)" by (cases x) auto
    with Cons show ?case by simp
  qed
  have iw: "iter_weight r \<le> size r"
  proof (cases r)
    case (JArr xs) then show ?thesis using le [of xs] by (simp add: iter_weight_def)
  qed (simp_all add: iter_weight_def o_def)
  from look have "(''replies'', r) \<in> set kvs" by (rule map_of_SomeD)
  then have "size r < size_list (\<lambda>x. Suc (size (snd x))) kvs"
    by (induction kvs) auto
  then have "size r < size e" by (simp add: e size_prod_simp)
  with iw show "(Inl r, Inr (e # es, postings)) \<in> measure (\<lambda>x. case x of
          Inl edges \<Rightarrow> 2 * iter_weight edges + 2
        | Inr (es, postings) \<Rightarrow> 2 * sum_list (map weight es) + 1)"
    by (simp add: e)
next
  fix e :: json and es postings :: "json list" and r :: json and sub :: "json list"
  assume r: "subscript e ''replies'' = Inr r"
  then obtain kvs where e: "e = JObj kvs"
    by (cases e) auto
  show "(Inr (es, postings @ sub), Inr (e # es, postings)) \<in> measure (\<lambda>x. case x of
          Inl edges \<Rightarrow> 2 * iter_weight edges + 2
        | Inr (es, postings) \<Rightarrow> 2 * sum_list (map weight es) + 1)"
    by (simp add: e)
qed


text \<open>The element expression of the comprehension in \<^verbatim>\<open>get_forum_postings\<close>.\<close>

definition to_forum_posting :: "lib \<Rightarrow> json \<Rightarrow> posting result" where
  "to_forum_posting L p =
     bind (subscript p ''id'') (\<lambda>pid.
     bind (subscript p ''id'') (\<lambda>pid'.
     bind (subscript p ''rootPostingId'') (\<lambda>root.
     bind (if py_eq pid' root then Inr JNull else subscript p ''rootPostingId'') (\<lambda>parent.
     bind (subscript p ''author'') (\<lambda>a.
     bind (subscript a ''id'') (\<lambda>uid.
     bind (subscript p ''author'') (\<lambda>a'.
     bind (subscript a' ''name'') (\<lambda>uname.
     bind (subscript p ''history'') (\<lambda>h.
     bind (subscript h ''created'') (\<lambda>created.
     bind (dateparser_parse L created) (\<lambda>d.
     bind (subscript p ''reactions'') (\<lambda>r.
     bind (subscript r ''aggregated'') (\<lambda>agg.
     bind (index agg 0) (\<lambda>first.
     bind (subscript first ''value'') (\<lambda>up.
     bind (subscript p ''reactions'') (\<lambda>r'.
     bind (subscript r' ''aggregated'') (\<lambda>agg'.
     bind (index agg' 1) (\<lambda>second.
     bind (subscript second ''value'') (\<lambda>down.
     bind (subscript p ''title'') (\<lambda>ti.
     bind (subscript p ''text'') (\<lambda>te.
       Inr \<lparr>posting_id = pid,
            parent_id = parent,
            user = \<lparr>user_id = uid, name = uname\<rparr>,
            posting.thread_id = None,
            published = d,
            title = or_none ti,
            message = or_none te,
            upvotes = up,
            downvotes = down\<rparr>)))))))))))))))))))))"

text \<open>
  The comprehension itself: the condition \<^verbatim>\<open>p["lifecycleStatus"] == "Published"\<close> is
  evaluated first, the posting is built only when it holds.
\<close>

fun published_postings :: "lib \<Rightarrow> json list \<Rightarrow> posting list result" where
  "published_postings L [] = Inr []"
| "published_postings L (p # ps) =
     bind (subscript p ''lifecycleStatus'') (\<lambda>st.
       if py_eq st (JStr ''Published'')
       then bind (to_forum_posting L p) (\<lambda>y.
            bind (published_postings L ps) (\<lambda>ys. Inr (y # ys)))
       else published_postings L ps)"

definition get_forum_postings ::
  "lib \<Rightarrow> 's backend \<Rightarrow> id_arg \<Rightarrow> 's \<Rightarrow> posting list result \<times> 's" where
  "get_forum_postings L backend article_id s =
     (case get_forum_id backend article_id s of
        (Inl e, s1) \<Rightarrow> (Inl e, s1)
      | (Inr forum_id, s1) \<Rightarrow>
          (case backend (ThreadsByForumQuery forum_id 18 100000) s1 of
             (Inl e, s2) \<Rightarrow> (Inl e, s2)
           | (Inr response, s2) \<Rightarrow>
               (bind (subscript response ''data'') (\<lambda>d.
                bind (subscript d ''getForumRootPostings'') (\<lambda>g.
                bind (subscript g ''edges'') (\<lambda>edges.
                bind (py_iter edges) (\<lambda>es.
                bind (mapM (\<lambda>e. subscript e ''node'') es) (\<lambda>root.
                bind (linearize (JArr root)) (published_postings L)))))), s2)))"

section \<open>Well-formed responses\<close>

text \<open>
  A node of the reply tree with the fields that the forum query asks for, in the order of
  the query, and the JSON object that the backend sends for it.
\<close>

datatype fnode =
  FNode (nid: json) (lifecycleStatus: json) (author: json) (ntitle: json) (ntext: json)
    (reactions: json) (history: json) (rootPostingId: json) (replies: "fnode list")

fun json_of :: "fnode \<Rightarrow> json" where
  "json_of (FNode i st a ti te re h r rs) =
     JObj [(''id'', i), (''lifecycleStatus'', st), (''author'', a), (''title'', ti),
           (''text'', te), (''reactions'', re), (''history'', h), (''rootPostingId'', r),
           (''replies'', JArr (map json_of rs))]"

text \<open>The nodes of a tree: the standard pre-order, and the number of nodes.\<close>

fun preorder :: "fnode \<Rightarrow> fnode list" where
  "preorder (FNode i st a ti te re h r rs) =
     FNode i st a ti te re h r rs # concat (map preorder rs)"

fun node_count :: "fnode \<Rightarrow> nat" where
  "node_count (FNode i st a ti te re h r rs) = Suc (sum_list (map node_count rs))"

definition descendants :: "fnode \<Rightarrow> fnode list" where
  "descendants n = concat (map preorder (replies n))"

text \<open>
  The order in which \<open>linearize\<close> lists the nodes below a node: its replies first, then
  what is below each of them.
\<close>

fun below :: "fnode \<Rightarrow> fnode list" where
  "below (FNode i st a ti te re h r rs) = rs @ concat (map below rs)"

definition siblings_first :: "fnode list \<Rightarrow> fnode list" where
  "siblings_first forest = forest @ concat (map below forest)"

definition is_published :: "fnode \<Rightarrow> bool" where
  "is_published n = (lifecycleStatus n = JStr ''Published'')"

text \<open>The responses of the forum API for a forum id and for a list of root postings.\<close>

definition forum_info_response :: "json \<Rightarrow> json" where
  "forum_info_response forum_id =
     JObj [(''data'', JObj [(''getForumByContextUri'',
        JObj [(''id'', forum_id), (''totalPostingCount'', JInt 0)])])]"

definition root_postings_response :: "fnode list \<Rightarrow> json" where
  "root_postings_response forest =
     JObj [(''data'', JObj [(''getForumRootPostings'',
        JObj [(''edges'', JArr (map (\<lambda>n. JObj [(''node'', json_of n)]) forest))])])]"

text \<open>A page of the ticker API with the given postings.\<close>

definition page_of :: "json list \<Rightarrow> json" where
  "page_of ps = JObj [(''p'', JArr ps)]"

text \<open>
  A scripted backend, as a test would mock it: the answer to the \<open>i\<close>-th request is
  \<open>script i\<close>, whatever the request; the state is the list of the requests received.
  \<open>replay\<close> is the script that plays a list of responses and then fails.
\<close>

definition scripted :: "(nat \<Rightarrow> json result) \<Rightarrow> request list backend" where
  "scripted script req log = (script (length log), log @ [req])"

definition replay :: "json list \<Rightarrow> nat \<Rightarrow> json result" where
  "replay rs i = (if i < length rs then Inr (rs ! i) else Inl ClientError)"

text \<open>
  A page on which the loop of \<open>get_thread_postings\<close> goes on: its posting list is a
  non-empty list whose last element is a dict with a \<open>pid\<close>.
\<close>

definition continues :: "json result \<Rightarrow> bool" where
  "continues r =
     (case r of
        Inl e \<Rightarrow> False
      | Inr page \<Rightarrow>
          (case subscript page ''p'' of
             Inr (JArr xs) \<Rightarrow>
               xs \<noteq> [] \<and> (case subscript (last xs) ''pid'' of Inl e \<Rightarrow> False | Inr c \<Rightarrow> True)
           | _ \<Rightarrow> False))"

section \<open>An instance of the library parameters\<close>

text \<open>
  For the evaluation of the operations on concrete responses: a parser of the timestamps
  of the form \<^verbatim>\<open>YYYY-MM-DDTHH:MM:SS\<close>, alone or followed by \<^verbatim>\<open>Z\<close> or by an offset
  \<^verbatim>\<open>+HH:MM\<close> or \<^verbatim>\<open>-HH:MM\<close>, a local time zone that is UTC, and \<^verbatim>\<open>int()\<close> on an
  optional sign and decimal digits. On these inputs the libraries give the same values.
\<close>

definition digit :: "char \<Rightarrow> int option" where
  "digit c =
     (let n = (of_char c :: nat) in if 48 \<le> n \<and> n \<le> 57 then Some (int n - 48) else None)"

fun digits :: "string \<Rightarrow> int \<Rightarrow> int option" where
  "digits [] acc = Some acc"
| "digits (c # cs) acc = (case digit c of None \<Rightarrow> None | Some d \<Rightarrow> digits cs (10 * acc + d))"

definition number :: "string \<Rightarrow> int option" where
  "number s = (if s = [] then None else digits s 0)"

text \<open>Days from 1970-01-01 to a date of the proleptic Gregorian calendar.\<close>

definition days_from_civil :: "int \<Rightarrow> int \<Rightarrow> int \<Rightarrow> int" where
  "days_from_civil y m d =
     (let y' = (if m \<le> 2 then y - 1 else y);
          era = y' div 400;
          yoe = y' - era * 400;
          doy = (153 * (if m > 2 then m - 3 else m + 9) + 2) div 5 + d - 1;
          doe = yoe * 365 + yoe div 4 - yoe div 100 + doy
      in era * 146097 + doe - 719468)"

definition civil :: "int \<Rightarrow> int \<Rightarrow> int \<Rightarrow> int \<Rightarrow> int \<Rightarrow> int \<Rightarrow> int" where
  "civil y m d hh mm ss = days_from_civil y m d * 86400 + hh * 3600 + mm * 60 + ss"

definition iso_zone :: "string \<Rightarrow> int option option" where
  "iso_zone z =
     (if z = [] then Some None
      else if z = ''Z'' then Some (Some 0)
      else if length z = 6 \<and> z ! 3 = CHR '':'' \<and> (z ! 0 = CHR ''+'' \<or> z ! 0 = CHR ''-'') then
        (case (number (take 2 (drop 1 z)), number (drop 4 z)) of
           (Some hh, Some mm) \<Rightarrow>
             Some (Some ((if z ! 0 = CHR ''-'' then - 1 else 1) * (hh * 3600 + mm * 60)))
         | _ \<Rightarrow> None)
      else None)"

definition iso_parse :: "string \<Rightarrow> datetime result" where
  "iso_parse s =
     (if length s < 19 \<or> s ! 4 \<noteq> CHR ''-'' \<or> s ! 7 \<noteq> CHR ''-'' \<or> s ! 10 \<noteq> CHR ''T''
         \<or> s ! 13 \<noteq> CHR '':'' \<or> s ! 16 \<noteq> CHR '':'' then Inl ValueError
      else
        (case (number (take 4 s), number (take 2 (drop 5 s)), number (take 2 (drop 8 s)),
               number (take 2 (drop 11 s)), number (take 2 (drop 14 s)),
               number (take 2 (drop 17 s)), iso_zone (drop 19 s)) of
           (Some y, Some m, Some d, Some hh, Some mm, Some ss, Some z) \<Rightarrow>
             if 1 \<le> m \<and> m \<le> 12 \<and> 1 \<le> d \<and> d \<le> 31 \<and> hh < 24 \<and> mm < 60 \<and> ss < 60
             then Inr \<lparr>wall = civil y m d hh mm ss, utcoffset = z\<rparr>
             else Inl ValueError
         | _ \<Rightarrow> Inl ValueError))"

definition decimal :: "string \<Rightarrow> int result" where
  "decimal s =
     (case s of
        [] \<Rightarrow> Inl ValueError
      | c # cs \<Rightarrow>
          (case (if c = CHR ''-'' \<or> c = CHR ''+'' then number cs else number s) of
             None \<Rightarrow> Inl ValueError
           | Some n \<Rightarrow> Inr (if c = CHR ''-'' then - n else n)))"

definition iso_lib :: lib where
  "iso_lib = \<lparr>parse = iso_parse, local_utcoffset = (\<lambda>w. 0), int_of_str = decimal\<rparr>"

section \<open>Example responses\<close>

text \<open>
  Concrete responses on which the operations are evaluated: a ticker thread and a ticker
  posting with empty title and text, a node of a forum whose first aggregated reaction is
  the negative one, and scripted backends that serve them.
\<close>

definition example_thread :: json where
  "example_thread =
     JObj [(''id'', JInt 11), (''ctd'', JStr ''2022-01-01T12:00:00+01:00''),
           (''hl'', JStr ''''), (''cm'', JStr ''''), (''cid'', JInt 7), (''cn'', JStr ''u''),
           (''vp'', JInt 3), (''vn'', JInt 1)]"

definition ticker_posting :: "int \<Rightarrow> json" where
  "ticker_posting i =
     JObj [(''pid'', JInt i), (''ppid'', JNull), (''cid'', JInt 7), (''cn'', JStr ''u''),
           (''cd'', JStr ''2022-01-01T12:00:00+01:00''), (''hl'', JStr ''''), (''tx'', JStr ''''),
           (''vp'', JInt 0), (''vn'', JInt 0)]"

definition example_node :: "string \<Rightarrow> string \<Rightarrow> string \<Rightarrow> fnode list \<Rightarrow> fnode" where
  "example_node i st root rs =
     FNode (JStr i) (JStr st)
       (JObj [(''id'', JStr ''u1''), (''name'', JStr ''n'')])
       (JStr '''') (JStr '''')
       (JObj [(''aggregated'',
          JArr [JObj [(''name'', JStr ''negative''), (''value'', JInt 5)],
                JObj [(''name'', JStr ''positive''), (''value'', JInt 2)]])])
       (JObj [(''created'', JStr ''2022-01-01T12:00:00+01:00'')])
       (JStr root) rs"

definition example_threads_backend :: "request list backend" where
  "example_threads_backend = scripted (replay [JObj [(''rcs'', JArr [example_thread])]])"

definition example_posting_lists :: "json list list" where
  "example_posting_lists =
     [[ticker_posting 1, ticker_posting 2], [ticker_posting 2, ticker_posting 3]]"

definition example_pages :: "json list" where
  "example_pages = map page_of example_posting_lists @ [page_of []]"

definition example_pages_backend :: "request list backend" where
  "example_pages_backend = scripted (replay example_pages)"

text \<open>A backend that answers every request with the same page of one posting.\<close>

definition repeating_backend :: "request list backend" where
  "repeating_backend = scripted (\<lambda>i. Inr (page_of [ticker_posting 1]))"

definition node_d :: fnode where
  "node_d = example_node ''d'' ''Published'' ''a'' []"

definition node_b :: fnode where
  "node_b = example_node ''b'' ''Deleted'' ''a'' [node_d]"

definition node_c :: fnode where
  "node_c = example_node ''c'' ''Published'' ''a'' []"

definition node_a :: fnode where
  "node_a = example_node ''a'' ''Published'' ''a'' [node_b, node_c]"

definition node_e :: fnode where
  "node_e = example_node ''e'' ''Published'' ''e'' []"

definition example_forest :: "fnode list" where
  "example_forest = [node_a, node_e]"



definition example_forum_backend :: "request list backend" where
  "example_forum_backend =
     scripted (replay [forum_info_response (JStr ''f''), root_postings_response example_forest])"

text \<open>A forum node with a single aggregated reaction.\<close>

definition short_reactions_node :: fnode where
  "short_reactions_node =
     FNode (JStr ''a'') (JStr ''Published'')
       (JObj [(''id'', JStr ''u1''), (''name'', JStr ''n'')])
       (JStr ''t'') (JStr ''x'')
       (JObj [(''aggregated'', JArr [JObj [(''name'', JStr ''positive''), (''value'', JInt 5)]])])
       (JObj [(''created'', JStr ''2022-01-01T12:00:00+01:00'')])
       (JStr ''a'') []"

section \<open>Notions for the statements about deduplication\<close>

text \<open>
  \<open>pid_is k r\<close>: the raw record \<open>r\<close> has a \<open>pid\<close> equal to \<open>k\<close>. \<open>py_distinct\<close>: no two
  elements of a list are equal under \<^verbatim>\<open>==\<close>. \<open>dict_get\<close>: the value that a dict holds for a
  key.
\<close>

definition pid_is :: "json \<Rightarrow> json \<Rightarrow> bool" where
  "pid_is k r = (case subscript r ''pid'' of Inl e \<Rightarrow> False | Inr k' \<Rightarrow> py_eq k' k)"

fun py_distinct :: "json list \<Rightarrow> bool" where
  "py_distinct [] = True"
| "py_distinct (k # ks) = (list_all (\<lambda>k'. \<not> py_eq k k') ks \<and> py_distinct ks)"

fun dict_get :: "(json \<times> json) list \<Rightarrow> json \<Rightarrow> json option" where
  "dict_get [] k = None"
| "dict_get ((k', v) # d) k = (if py_eq k' k then Some v else dict_get d k)"

text \<open>The invariant of the dict comprehension.\<close>

definition dict_ok :: "(json \<times> json) list \<Rightarrow> bool" where
  "dict_ok d \<longleftrightarrow> py_distinct (map fst d) \<and> (\<forall>(k, v) \<in> set d. hashable k \<and> pid_is k v)"

section \<open>Overlapping pages with an edited posting\<close>

text \<open>
  The second page repeats the posting 2 of the first page with another text.
\<close>

definition edited_posting :: json where
  "edited_posting =
     JObj [(''pid'', JInt 2), (''ppid'', JNull), (''cid'', JInt 7), (''cn'', JStr ''u''),
           (''cd'', JStr ''2022-01-01T12:00:00+01:00''), (''tx'', JStr ''new''),
           (''vp'', JInt 4), (''vn'', JInt 0)]"

definition overlap_backend :: "request list backend" where
  "overlap_backend =
     scripted (replay [page_of [ticker_posting 1, ticker_posting 2],
                       page_of [edited_posting, ticker_posting 3], page_of []])"

section \<open>A small forum and responses with missing fields\<close>

text \<open>
  A tree of a root with an unpublished reply; a thread record without \<open>vn\<close>, a response
  without \<open>rcs\<close>, a ticker posting without \<open>cn\<close>, and root postings for which the backend
  sends only the id and the status.
\<close>

definition small_forest :: "fnode list" where
  "small_forest = [example_node ''a'' ''Published'' ''a'' [node_b, node_c]]"

definition small_forum_backend :: "request list backend" where
  "small_forum_backend =
     scripted (replay [forum_info_response (JStr ''f''), root_postings_response small_forest])"









section \<open>Basic facts about results and comprehensions\<close>

lemma bind_Inr_iff: "bind m f = Inr y \<longleftrightarrow> (\<exists>x. m = Inr x \<and> f x = Inr y)"
  by (cases m) (simp_all add: bind_def)

lemma bind_simps [simp]: "bind (Inl e) f = Inl e" "bind (Inr x) f = f x"
  by (simp_all add: bind_def)

lemma mapM_origin: "mapM f xs = Inr ys \<Longrightarrow> y \<in> set ys \<Longrightarrow> \<exists>x \<in> set xs. f x = Inr y"
proof (induction xs arbitrary: ys)
  case Nil
  then show ?case by simp
next
  case (Cons a xs)
  from Cons.prems(1) obtain b bs where b: "f a = Inr b" and bs: "mapM f xs = Inr bs" and ys: "ys = b # bs"
    by (auto simp: bind_Inr_iff)
  show ?case
  proof (cases "y = b")
    case True
    with b show ?thesis by simp
  next
    case False
    with Cons.prems(2) ys have "y \<in> set bs" by simp
    with Cons.IH [OF bs] show ?thesis by auto
  qed
qed


lemma or_none_not_empty: "or_none v \<noteq> JStr []"
  by (cases v) (auto simp: or_none_def)

lemma or_none_empty: "or_none (JStr []) = JNull"
  by (simp add: or_none_def)


lemma bindE: "bind m f = Inr y \<Longrightarrow> (\<And>x. m = Inr x \<Longrightarrow> f x = Inr y \<Longrightarrow> P) \<Longrightarrow> P"
  by (auto simp: bind_Inr_iff)

lemma published_postings_origin:
  "published_postings L raw = Inr ps \<Longrightarrow> q \<in> set ps \<Longrightarrow>
     \<exists>p \<in> set raw. subscript p ''lifecycleStatus'' = Inr (JStr ''Published'') \<and> to_forum_posting L p = Inr q"
proof (induction raw arbitrary: ps)
  case Nil
  then show ?case by simp
next
  case (Cons p raw)
  from Cons.prems(1) obtain st where st: "subscript p ''lifecycleStatus'' = Inr st"
    by (auto elim: bindE)
  show ?case
  proof (cases "py_eq st (JStr ''Published'')")
    case True
    then have st': "st = JStr ''Published''" by (cases st) auto
    from Cons.prems(1) st True obtain y ys where y: "to_forum_posting L p = Inr y"
      and ys: "published_postings L raw = Inr ys" and ps: "ps = y # ys"
      by (auto elim!: bindE)
    show ?thesis
    proof (cases "q = y")
      case True
      with y st st' show ?thesis by simp
    next
      case False
      with Cons.prems(2) ps have "q \<in> set ys" by simp
      with Cons.IH [OF ys] show ?thesis by auto
    qed
  next
    case False
    with Cons.prems(1) st have "published_postings L raw = Inr ps" by simp
    from Cons.IH [OF this Cons.prems(2)] show ?thesis by auto
  qed
qed

lemma get_ticker_threads_origin:
  assumes "get_ticker_threads L backend tk s = (Inr ths, s')" and "th \<in> set ths"
  shows "\<exists>t. to_thread L tk t = Inr th"
proof -
  from assms(1) obtain ts where "mapM (to_thread L tk) ts = Inr ths"
    by (auto simp: get_ticker_threads_def bind_Inr_iff split: prod.splits sum.splits)
  from mapM_origin [OF this assms(2)] show ?thesis by blast
qed

lemma get_thread_postings_origin:
  assumes "get_thread_postings L backend tk tr s = Some (Inr ps, s')" and "q \<in> set ps"
  shows "\<exists>r. to_ticker_posting L tr r = Inr q"
proof -
  from assms(1) obtain rs where "mapM (to_ticker_posting L tr) rs = Inr ps"
    by (auto simp: get_thread_postings_def bind_Inr_iff split: option.splits prod.splits sum.splits)
  from mapM_origin [OF this assms(2)] show ?thesis by blast
qed

lemma get_forum_postings_raw:
  assumes "get_forum_postings L backend a s = (Inr ps, s')"
  shows "\<exists>raw. published_postings L raw = Inr ps"
  using assms
  by (auto simp: get_forum_postings_def bind_Inr_iff split: prod.splits sum.splits)

lemma get_forum_postings_origin:
  assumes "get_forum_postings L backend a s = (Inr ps, s')" and "q \<in> set ps"
  shows "\<exists>p. subscript p ''lifecycleStatus'' = Inr (JStr ''Published'') \<and> to_forum_posting L p = Inr q"
proof -
  from get_forum_postings_raw [OF assms(1)] obtain raw where "published_postings L raw = Inr ps" ..
  from published_postings_origin [OF this assms(2)] show ?thesis by blast
qed

lemma subscript_py_get: "subscript t k = Inr v \<Longrightarrow> py_get t k = Inr v"
  by (cases t) (auto split: option.splits)

lemma to_thread_title:
  assumes "to_thread L tk t = Inr th"
  shows "\<exists>hl cm. py_get t ''hl'' = Inr hl \<and> py_get t ''cm'' = Inr cm
           \<and> thread.title th = or_none hl \<and> thread.message th = or_none cm"
  using assms unfolding to_thread_def by (elim bindE) auto

lemma to_ticker_posting_title:
  assumes "to_ticker_posting L tr r = Inr q"
  shows "\<exists>hl tx. py_get r ''hl'' = Inr hl \<and> py_get r ''tx'' = Inr tx
           \<and> title q = or_none hl \<and> message q = or_none tx"
  using assms unfolding to_ticker_posting_def by (elim bindE) auto

lemma to_forum_posting_title:
  assumes "to_forum_posting L p = Inr q"
  shows "\<exists>ti te. subscript p ''title'' = Inr ti \<and> subscript p ''text'' = Inr te
           \<and> title q = or_none ti \<and> message q = or_none te"
  using assms unfolding to_forum_posting_def by (elim bindE) auto

section \<open>Empty titles and messages\<close>

text \<open>
  Claim C10. Every mapping builds title and message with \<^verbatim>\<open>... or None\<close>: a source field
  (\<open>hl\<close>, \<open>cm\<close>, \<open>tx\<close> of the ticker, \<open>title\<close>, \<open>text\<close> of the forum) that is present and
  the empty string gives \<^verbatim>\<open>None\<close>, and no Thread or Posting that an operation returns has
  the empty string as its title or message.
\<close>

theorem empty_title_message_is_null:
  "(to_thread L tk t = Inr th \<longrightarrow>
      thread.title th \<noteq> JStr [] \<and> thread.message th \<noteq> JStr [] \<and>
      (subscript t ''hl'' = Inr (JStr []) \<longrightarrow> thread.title th = JNull) \<and>
      (subscript t ''cm'' = Inr (JStr []) \<longrightarrow> thread.message th = JNull)) \<and>
   (to_ticker_posting L tr r = Inr q \<longrightarrow>
      title q \<noteq> JStr [] \<and> message q \<noteq> JStr [] \<and>
      (subscript r ''hl'' = Inr (JStr []) \<longrightarrow> title q = JNull) \<and>
      (subscript r ''tx'' = Inr (JStr []) \<longrightarrow> message q = JNull)) \<and>
   (to_forum_posting L p = Inr q' \<longrightarrow>
      title q' \<noteq> JStr [] \<and> message q' \<noteq> JStr [] \<and>
      (subscript p ''title'' = Inr (JStr []) \<longrightarrow> title q' = JNull) \<and>
      (subscript p ''text'' = Inr (JStr []) \<longrightarrow> message q' = JNull)) \<and>
   (get_ticker_threads L backend tk s = (Inr ths, s') \<longrightarrow>
      (\<forall>x \<in> set ths. thread.title x \<noteq> JStr [] \<and> thread.message x \<noteq> JStr [])) \<and>
   (get_thread_postings L backend tk tr s = Some (Inr ps, s') \<longrightarrow>
      (\<forall>x \<in> set ps. title x \<noteq> JStr [] \<and> message x \<noteq> JStr [])) \<and>
   (get_forum_postings L backend a s = (Inr ps', s') \<longrightarrow>
      (\<forall>x \<in> set ps'. title x \<noteq> JStr [] \<and> message x \<noteq> JStr []))"
proof (intro conjI impI ballI)
  assume "to_thread L tk t = Inr th"
  from to_thread_title [OF this] obtain hl cm where
    *: "py_get t ''hl'' = Inr hl" "py_get t ''cm'' = Inr cm"
       "thread.title th = or_none hl" "thread.message th = or_none cm" by blast
  from * show "thread.title th \<noteq> JStr []" "thread.message th \<noteq> JStr []"
    by (simp_all add: or_none_not_empty)
  { assume "subscript t ''hl'' = Inr (JStr [])"
    from subscript_py_get [OF this] * show "thread.title th = JNull"
      by (simp add: or_none_empty) }
  { assume "subscript t ''cm'' = Inr (JStr [])"
    from subscript_py_get [OF this] * show "thread.message th = JNull"
      by (simp add: or_none_empty) }
next
  assume "to_ticker_posting L tr r = Inr q"
  from to_ticker_posting_title [OF this] obtain hl tx where
    *: "py_get r ''hl'' = Inr hl" "py_get r ''tx'' = Inr tx"
       "title q = or_none hl" "message q = or_none tx" by blast
  from * show "title q \<noteq> JStr []" "message q \<noteq> JStr []"
    by (simp_all add: or_none_not_empty)
  { assume "subscript r ''hl'' = Inr (JStr [])"
    from subscript_py_get [OF this] * show "title q = JNull"
      by (simp add: or_none_empty) }
  { assume "subscript r ''tx'' = Inr (JStr [])"
    from subscript_py_get [OF this] * show "message q = JNull"
      by (simp add: or_none_empty) }
next
  assume "to_forum_posting L p = Inr q'"
  from to_forum_posting_title [OF this] obtain ti te where
    *: "subscript p ''title'' = Inr ti" "subscript p ''text'' = Inr te"
       "title q' = or_none ti" "message q' = or_none te" by blast
  from * show "title q' \<noteq> JStr []" "message q' \<noteq> JStr []"
    by (simp_all add: or_none_not_empty)
  { assume "subscript p ''title'' = Inr (JStr [])"
    with * show "title q' = JNull" by (auto simp: or_none_def) }
  { assume "subscript p ''text'' = Inr (JStr [])"
    with * show "message q' = JNull" by (auto simp: or_none_def) }
next
  fix x assume "get_ticker_threads L backend tk s = (Inr ths, s')" "x \<in> set ths"
  from get_ticker_threads_origin [OF this] obtain t0 where "to_thread L tk t0 = Inr x" ..
  from to_thread_title [OF this]
  show "thread.title x \<noteq> JStr []" "thread.message x \<noteq> JStr []"
    by (metis or_none_not_empty)+
next
  fix x assume "get_thread_postings L backend tk tr s = Some (Inr ps, s')" "x \<in> set ps"
  from get_thread_postings_origin [OF this] obtain r0 where "to_ticker_posting L tr r0 = Inr x" ..
  from to_ticker_posting_title [OF this]
  show "title x \<noteq> JStr []" "message x \<noteq> JStr []"
    by (metis or_none_not_empty)+
next
  fix x assume "get_forum_postings L backend a s = (Inr ps', s')" "x \<in> set ps'"
  from get_forum_postings_origin [OF this] obtain p0 where "to_forum_posting L p0 = Inr x" by blast
  from to_forum_posting_title [OF this]
  show "title x \<noteq> JStr []" "message x \<noteq> JStr []"
    by (metis or_none_not_empty)+
qed


theorem empty_title_message_is_null_witness:
  "to_thread iso_lib (IntId 1) example_thread
     = Inr (projr (to_thread iso_lib (IntId 1) example_thread)) \<and>
   subscript example_thread ''hl'' = Inr (JStr []) \<and>
   subscript example_thread ''cm'' = Inr (JStr []) \<and>
   thread.title (projr (to_thread iso_lib (IntId 1) example_thread)) = JNull \<and>
   thread.message (projr (to_thread iso_lib (IntId 1) example_thread)) = JNull \<and>
   to_ticker_posting iso_lib (IntId 5) (ticker_posting 1)
     = Inr (projr (to_ticker_posting iso_lib (IntId 5) (ticker_posting 1))) \<and>
   subscript (ticker_posting 1) ''hl'' = Inr (JStr []) \<and>
   subscript (ticker_posting 1) ''tx'' = Inr (JStr []) \<and>
   title (projr (to_ticker_posting iso_lib (IntId 5) (ticker_posting 1))) = JNull \<and>
   message (projr (to_ticker_posting iso_lib (IntId 5) (ticker_posting 1))) = JNull \<and>
   to_forum_posting iso_lib (json_of (example_node ''a'' ''Published'' ''a'' []))
     = Inr (projr (to_forum_posting iso_lib (json_of (example_node ''a'' ''Published'' ''a'' [])))) \<and>
   subscript (json_of (example_node ''a'' ''Published'' ''a'' [])) ''title'' = Inr (JStr []) \<and>
   subscript (json_of (example_node ''a'' ''Published'' ''a'' [])) ''text'' = Inr (JStr []) \<and>
   title (projr (to_forum_posting iso_lib (json_of (example_node ''a'' ''Published'' ''a'' [])))) = JNull \<and>
   message (projr (to_forum_posting iso_lib (json_of (example_node ''a'' ''Published'' ''a'' [])))) = JNull \<and>
   get_ticker_threads iso_lib example_threads_backend (IntId 1) []
     = (Inr (projr (fst (get_ticker_threads iso_lib example_threads_backend (IntId 1) []))),
        [Redcontent (IntId 1) 1000000]) \<and>
   length (projr (fst (get_ticker_threads iso_lib example_threads_backend (IntId 1) []))) = 1 \<and>
   list_all (\<lambda>x. thread.title x \<noteq> JStr [] \<and> thread.message x \<noteq> JStr [])
     (projr (fst (get_ticker_threads iso_lib example_threads_backend (IntId 1) []))) \<and>
   get_thread_postings iso_lib example_pages_backend (IntId 1) (IntId 5) []
     = Some (Inr (projr (fst (the (get_thread_postings iso_lib example_pages_backend (IntId 1) (IntId 5) [])))),
        snd (the (get_thread_postings iso_lib example_pages_backend (IntId 1) (IntId 5) []))) \<and>
   length (projr (fst (the (get_thread_postings iso_lib example_pages_backend (IntId 1) (IntId 5) [])))) = 3 \<and>
   list_all (\<lambda>x. title x \<noteq> JStr [] \<and> message x \<noteq> JStr [])
     (projr (fst (the (get_thread_postings iso_lib example_pages_backend (IntId 1) (IntId 5) [])))) \<and>
   get_forum_postings iso_lib example_forum_backend (IntId 1) []
     = (Inr (projr (fst (get_forum_postings iso_lib example_forum_backend (IntId 1) []))),
        snd (get_forum_postings iso_lib example_forum_backend (IntId 1) [])) \<and>
   length (projr (fst (get_forum_postings iso_lib example_forum_backend (IntId 1) []))) = 4 \<and>
   list_all (\<lambda>x. title x \<noteq> JStr [] \<and> message x \<noteq> JStr [])
     (projr (fst (get_forum_postings iso_lib example_forum_backend (IntId 1) [])))"
proof -
  let ?th = "projr (to_thread iso_lib (IntId 1) example_thread)"
  let ?q = "projr (to_ticker_posting iso_lib (IntId 5) (ticker_posting 1))"
  let ?n = "json_of (example_node ''a'' ''Published'' ''a'' [])"
  let ?q' = "projr (to_forum_posting iso_lib ?n)"
  let ?ths = "projr (fst (get_ticker_threads iso_lib example_threads_backend (IntId 1) []))"
  let ?r = "the (get_thread_postings iso_lib example_pages_backend (IntId 1) (IntId 5) [])"
  let ?f = "get_forum_postings iso_lib example_forum_backend (IntId 1) []"
  have h1: "to_thread iso_lib (IntId 1) example_thread = Inr ?th" by code_simp
  have h2: "subscript example_thread ''hl'' = Inr (JStr [])" by code_simp
  have h3: "subscript example_thread ''cm'' = Inr (JStr [])" by code_simp
  have h4: "to_ticker_posting iso_lib (IntId 5) (ticker_posting 1) = Inr ?q" by code_simp
  have h5: "subscript (ticker_posting 1) ''hl'' = Inr (JStr [])" by code_simp
  have h6: "subscript (ticker_posting 1) ''tx'' = Inr (JStr [])" by code_simp
  have h7: "to_forum_posting iso_lib ?n = Inr ?q'" by code_simp
  have h8: "subscript ?n ''title'' = Inr (JStr [])" by code_simp
  have h9: "subscript ?n ''text'' = Inr (JStr [])" by code_simp
  have h10: "get_ticker_threads iso_lib example_threads_backend (IntId 1) []
     = (Inr ?ths, [Redcontent (IntId 1) 1000000])" by code_simp
  have h11: "get_thread_postings iso_lib example_pages_backend (IntId 1) (IntId 5) []
     = Some (Inr (projr (fst ?r)), snd ?r)" by code_simp
  have h12: "?f = (Inr (projr (fst ?f)), snd ?f)" by code_simp
  have l1: "length ?ths = 1" by code_simp
  have l2: "length (projr (fst ?r)) = 3" by code_simp
  have l3: "length (projr (fst ?f)) = 4" by code_simp
  note T = empty_title_message_is_null [where L = iso_lib and tk = "IntId 1" and tr = "IntId 5"
      and t = example_thread and th = ?th and r = "ticker_posting 1" and q = ?q and p = ?n
      and q' = ?q' and s = "[]" and a = "IntId 1"]
  from T [where backend = example_threads_backend and ths = ?ths] h1 h2 h3 h10 l1
  have c1: "thread.title ?th = JNull" "thread.message ?th = JNull"
    "\<forall>x \<in> set ?ths. thread.title x \<noteq> JStr [] \<and> thread.message x \<noteq> JStr []"
    by blast+
  from T [where backend = example_pages_backend and ps = "projr (fst ?r)"] h4 h5 h6 h11
  have c2: "title ?q = JNull" "message ?q = JNull"
    "\<forall>x \<in> set (projr (fst ?r)). title x \<noteq> JStr [] \<and> message x \<noteq> JStr []"
    by blast+
  from T [where backend = example_forum_backend and ps' = "projr (fst ?f)"] h7 h8 h9 h12
  have c3: "title ?q' = JNull" "message ?q' = JNull"
    "\<forall>x \<in> set (projr (fst ?f)). title x \<noteq> JStr [] \<and> message x \<noteq> JStr []"
    by blast+
  from c1(3) c2(3) c3(3)
  have c4: "list_all (\<lambda>x. thread.title x \<noteq> JStr [] \<and> thread.message x \<noteq> JStr []) ?ths"
    "list_all (\<lambda>x. title x \<noteq> JStr [] \<and> message x \<noteq> JStr []) (projr (fst ?r))"
    "list_all (\<lambda>x. title x \<noteq> JStr [] \<and> message x \<noteq> JStr []) (projr (fst ?f))"
    by (simp_all add: list_all_iff)
  from h1 h2 h3 h4 h5 h6 h7 h8 h9 h10 h11 h12 l1 l2 l3 c1(1,2) c2(1,2) c3(1,2) c4 show ?thesis
    by (intro conjI)
qed

section \<open>What the mappings build\<close>

lemma to_forum_posting_InrD:
  assumes "to_forum_posting L p = Inr q"
  shows "\<exists>pid root a uid uname h created d r agg a0 up a1 down ti te.
           subscript p ''id'' = Inr pid \<and> subscript p ''rootPostingId'' = Inr root \<and>
           subscript p ''author'' = Inr a \<and> subscript a ''id'' = Inr uid \<and>
           subscript a ''name'' = Inr uname \<and> subscript p ''history'' = Inr h \<and>
           subscript h ''created'' = Inr created \<and> dateparser_parse L created = Inr d \<and>
           subscript p ''reactions'' = Inr r \<and> subscript r ''aggregated'' = Inr agg \<and>
           index agg 0 = Inr a0 \<and> subscript a0 ''value'' = Inr up \<and>
           index agg 1 = Inr a1 \<and> subscript a1 ''value'' = Inr down \<and>
           subscript p ''title'' = Inr ti \<and> subscript p ''text'' = Inr te \<and>
           q = \<lparr>posting_id = pid, parent_id = (if py_eq pid root then JNull else root),
                user = \<lparr>user_id = uid, name = uname\<rparr>, posting.thread_id = None,
                published = d, title = or_none ti, message = or_none te,
                upvotes = up, downvotes = down\<rparr>"
  using assms unfolding to_forum_posting_def
  by (elim bindE) (auto split: if_splits)

lemma to_thread_InrD:
  assumes "to_thread L tk t = Inr th"
  shows "\<exists>tid ctd d ticker hl cm cid cn vp vn.
           subscript t ''id'' = Inr tid \<and> subscript t ''ctd'' = Inr ctd \<and>
           dateparser_parse L ctd = Inr d \<and> py_int L tk = Inr ticker \<and>
           py_get t ''hl'' = Inr hl \<and> py_get t ''cm'' = Inr cm \<and>
           subscript t ''cid'' = Inr cid \<and> subscript t ''cn'' = Inr cn \<and>
           subscript t ''vp'' = Inr vp \<and> subscript t ''vn'' = Inr vn \<and>
           th = \<lparr>thread.thread_id = tid, thread.published = astimezone_utc L d,
                 thread.ticker_id = ticker, thread.title = or_none hl,
                 thread.message = or_none cm, thread.user = \<lparr>user_id = cid, name = cn\<rparr>,
                 thread.upvotes = vp, thread.downvotes = vn\<rparr>"
  using assms unfolding to_thread_def
  by (elim bindE) auto

lemma to_ticker_posting_InrD:
  assumes "to_ticker_posting L tr p = Inr q"
  shows "\<exists>pid ppid cid cn thread cd d hl tx vp vn.
           subscript p ''pid'' = Inr pid \<and> subscript p ''ppid'' = Inr ppid \<and>
           subscript p ''cid'' = Inr cid \<and> subscript p ''cn'' = Inr cn \<and>
           py_int L tr = Inr thread \<and> subscript p ''cd'' = Inr cd \<and>
           dateparser_parse L cd = Inr d \<and>
           py_get p ''hl'' = Inr hl \<and> py_get p ''tx'' = Inr tx \<and>
           subscript p ''vp'' = Inr vp \<and> subscript p ''vn'' = Inr vn \<and>
           q = \<lparr>posting_id = pid, parent_id = ppid, user = \<lparr>user_id = cid, name = cn\<rparr>,
                posting.thread_id = Some thread, published = astimezone_utc L d,
                title = or_none hl, message = or_none tx, upvotes = vp, downvotes = vn\<rparr>"
  using assms unfolding to_ticker_posting_def
  by (elim bindE) auto

lemma utcoffset_astimezone_utc: "utcoffset (astimezone_utc L d) = Some 0"
  by (simp add: astimezone_utc_def split: option.splits)

lemma dateparser_parse_InrD: "dateparser_parse L v = Inr d \<Longrightarrow> \<exists>s. v = JStr s \<and> parse L s = Inr d"
  by (cases v) (auto simp: dateparser_parse_def)

lemma list_index_InrD: "list_index xs i = Inr x \<Longrightarrow> 0 \<le> i \<Longrightarrow> nat i < length xs \<and> x = xs ! nat i"
  by (auto simp: list_index_def split: if_splits)

section \<open>Votes of a forum posting\<close>

text \<open>
  Claim C8. For a forum node that reaches the mapping, \<open>upvotes\<close> is the \<open>value\<close> of the
  first entry of the node's aggregated reactions and \<open>downvotes\<close> the \<open>value\<close> of the second:
  the entries are taken by position, whatever their names. With fewer than two entries in
  the list the mapping raises an error and gives no posting.
\<close>

theorem forum_votes_are_positional:
  "(to_forum_posting L p = Inr q \<longrightarrow>
      (\<exists>r agg a0 a1.
         subscript p ''reactions'' = Inr r \<and> subscript r ''aggregated'' = Inr agg \<and>
         index agg 0 = Inr a0 \<and> index agg 1 = Inr a1 \<and>
         subscript a0 ''value'' = Inr (upvotes q) \<and>
         subscript a1 ''value'' = Inr (downvotes q))) \<and>
   (subscript p ''reactions'' = Inr r \<and> subscript r ''aggregated'' = Inr (JArr xs) \<longrightarrow>
      (length xs < 2 \<longrightarrow> (\<exists>e. to_forum_posting L p = Inl e)) \<and>
      (to_forum_posting L p = Inr q \<longrightarrow>
         2 \<le> length xs \<and>
         subscript (xs ! 0) ''value'' = Inr (upvotes q) \<and>
         subscript (xs ! 1) ''value'' = Inr (downvotes q)))"
proof -
  have A: "\<exists>r agg a0 a1.
         subscript p ''reactions'' = Inr r \<and> subscript r ''aggregated'' = Inr agg \<and>
         index agg 0 = Inr a0 \<and> index agg 1 = Inr a1 \<and>
         subscript a0 ''value'' = Inr (upvotes q) \<and>
         subscript a1 ''value'' = Inr (downvotes q)"
    if "to_forum_posting L p = Inr q" for q
    using to_forum_posting_InrD [OF that] by auto
  have B: "2 \<le> length xs \<and> subscript (xs ! 0) ''value'' = Inr (upvotes q) \<and>
         subscript (xs ! 1) ''value'' = Inr (downvotes q)"
    if ok: "to_forum_posting L p = Inr q" and r: "subscript p ''reactions'' = Inr r"
      and agg: "subscript r ''aggregated'' = Inr (JArr xs)" for q
  proof -
    from A [OF ok] r agg obtain a0 a1 where
      i0: "list_index xs 0 = Inr a0" and i1: "list_index xs 1 = Inr a1"
      and v: "subscript a0 ''value'' = Inr (upvotes q)" "subscript a1 ''value'' = Inr (downvotes q)"
      by auto
    from list_index_InrD [OF i0] list_index_InrD [OF i1] v show ?thesis by auto
  qed
  have C: "\<exists>e. to_forum_posting L p = Inl e"
    if r: "subscript p ''reactions'' = Inr r"
      and agg: "subscript r ''aggregated'' = Inr (JArr xs)" and short: "length xs < 2"
  proof (cases "to_forum_posting L p")
    case (Inl e)
    then show ?thesis by blast
  next
    case (Inr q0)
    from B [OF Inr r agg] short show ?thesis by simp
  qed
  from A B C show ?thesis by blast
qed

theorem forum_votes_are_positional_witness:
  "to_forum_posting iso_lib (json_of (example_node ''a'' ''Published'' ''a'' []))
     = Inr (projr (to_forum_posting iso_lib (json_of (example_node ''a'' ''Published'' ''a'' [])))) \<and>
   subscript (json_of (example_node ''a'' ''Published'' ''a'' [])) ''reactions''
     = Inr (reactions (example_node ''a'' ''Published'' ''a'' [])) \<and>
   subscript (reactions (example_node ''a'' ''Published'' ''a'' [])) ''aggregated''
     = Inr (JArr [JObj [(''name'', JStr ''negative''), (''value'', JInt 5)],
                  JObj [(''name'', JStr ''positive''), (''value'', JInt 2)]]) \<and>
   upvotes (projr (to_forum_posting iso_lib (json_of (example_node ''a'' ''Published'' ''a'' [])))) = JInt 5 \<and>
   downvotes (projr (to_forum_posting iso_lib (json_of (example_node ''a'' ''Published'' ''a'' [])))) = JInt 2 \<and>
   subscript (json_of short_reactions_node) ''reactions'' = Inr (reactions short_reactions_node) \<and>
   subscript (reactions short_reactions_node) ''aggregated''
     = Inr (JArr [JObj [(''name'', JStr ''positive''), (''value'', JInt 5)]]) \<and>
   (\<exists>e. to_forum_posting iso_lib (json_of short_reactions_node) = Inl e) \<and>
   to_forum_posting iso_lib (json_of short_reactions_node) = Inl IndexError"
proof -
  let ?n = "json_of (example_node ''a'' ''Published'' ''a'' [])"
  let ?q = "projr (to_forum_posting iso_lib ?n)"
  let ?neg = "JObj [(''name'', JStr ''negative''), (''value'', JInt 5)]"
  let ?pos = "JObj [(''name'', JStr ''positive''), (''value'', JInt 2)]"
  let ?one = "JObj [(''name'', JStr ''positive''), (''value'', JInt 5)]"
  have h1: "to_forum_posting iso_lib ?n = Inr ?q" by code_simp
  have h2: "subscript ?n ''reactions'' = Inr (reactions (example_node ''a'' ''Published'' ''a'' []))"
    by code_simp
  have h3: "subscript (reactions (example_node ''a'' ''Published'' ''a'' [])) ''aggregated''
     = Inr (JArr [?neg, ?pos])" by code_simp
  have h4: "subscript (json_of short_reactions_node) ''reactions'' = Inr (reactions short_reactions_node)"
    by code_simp
  have h5: "subscript (reactions short_reactions_node) ''aggregated'' = Inr (JArr [?one])"
    by code_simp
  have h6: "to_forum_posting iso_lib (json_of short_reactions_node) = Inl IndexError"
    by code_simp
  from forum_votes_are_positional [of iso_lib ?n ?q "reactions (example_node ''a'' ''Published'' ''a'' [])" "[?neg, ?pos]"]
    h1 h2 h3
  have c1: "upvotes ?q = JInt 5" "downvotes ?q = JInt 2" by simp_all
  from forum_votes_are_positional [of iso_lib "json_of short_reactions_node" _ "reactions short_reactions_node" "[?one]"]
    h4 h5
  have c2: "\<exists>e. to_forum_posting iso_lib (json_of short_reactions_node) = Inl e" by simp
  from h1 h2 h3 h4 h5 h6 c1 c2 show ?thesis by (intro conjI)
qed

section \<open>Time zone of the published timestamp\<close>

text \<open>
  Claim C7. The thread and ticker posting mappings convert the parsed timestamp to UTC:
  a ticker entry with \<open>ctd\<close> 2022-01-01T12:00:00+01:00 is published at 2022-01-01T11:00:00
  UTC. The forum posting mapping takes the parsed timestamp as it is, with the offset it
  came with.
\<close>

theorem published_timezone_asymmetry:
  "(to_thread L tk t = Inr th \<longrightarrow>
      utcoffset (thread.published th) = Some 0 \<and>
      (\<exists>c d. subscript t ''ctd'' = Inr (JStr c) \<and> parse L c = Inr d \<and>
             thread.published th = astimezone_utc L d)) \<and>
   (to_ticker_posting L tr r = Inr q \<longrightarrow>
      utcoffset (published q) = Some 0 \<and>
      (\<exists>c d. subscript r ''cd'' = Inr (JStr c) \<and> parse L c = Inr d \<and>
             published q = astimezone_utc L d)) \<and>
   (to_forum_posting L p = Inr q' \<longrightarrow>
      (\<exists>h c. subscript p ''history'' = Inr h \<and> subscript h ''created'' = Inr (JStr c) \<and>
             parse L c = Inr (published q'))) \<and>
   (subscript t ''ctd'' = Inr (JStr ''2022-01-01T12:00:00+01:00'') \<and>
    parse L ''2022-01-01T12:00:00+01:00''
      = Inr \<lparr>wall = civil 2022 1 1 12 0 0, utcoffset = Some 3600\<rparr> \<and>
    to_thread L tk t = Inr th \<longrightarrow>
      thread.published th = \<lparr>wall = civil 2022 1 1 11 0 0, utcoffset = Some 0\<rparr>) \<and>
   (get_ticker_threads L backend tk s = (Inr ths, s') \<longrightarrow>
      (\<forall>x \<in> set ths. utcoffset (thread.published x) = Some 0)) \<and>
   (get_thread_postings L backend tk tr s = Some (Inr ps, s') \<longrightarrow>
      (\<forall>x \<in> set ps. utcoffset (published x) = Some 0))"
proof (intro conjI impI ballI)
  assume "to_thread L tk t = Inr th"
  from to_thread_InrD [OF this] obtain ctd d where
    *: "subscript t ''ctd'' = Inr ctd" "dateparser_parse L ctd = Inr d"
       "thread.published th = astimezone_utc L d" by auto
  from * show "utcoffset (thread.published th) = Some 0"
    by (simp add: utcoffset_astimezone_utc)
  from * dateparser_parse_InrD [OF *(2)]
  show "\<exists>c d. subscript t ''ctd'' = Inr (JStr c) \<and> parse L c = Inr d \<and>
             thread.published th = astimezone_utc L d" by auto
next
  assume "to_ticker_posting L tr r = Inr q"
  from to_ticker_posting_InrD [OF this] obtain cd d where
    *: "subscript r ''cd'' = Inr cd" "dateparser_parse L cd = Inr d"
       "published q = astimezone_utc L d" by auto
  from * show "utcoffset (published q) = Some 0"
    by (simp add: utcoffset_astimezone_utc)
  from * dateparser_parse_InrD [OF *(2)]
  show "\<exists>c d. subscript r ''cd'' = Inr (JStr c) \<and> parse L c = Inr d \<and>
             published q = astimezone_utc L d" by auto
next
  assume "to_forum_posting L p = Inr q'"
  from to_forum_posting_InrD [OF this] obtain h created d where
    *: "subscript p ''history'' = Inr h" "subscript h ''created'' = Inr created"
       "dateparser_parse L created = Inr d" "published q' = d" by auto
  from * dateparser_parse_InrD [OF *(3)]
  show "\<exists>h c. subscript p ''history'' = Inr h \<and> subscript h ''created'' = Inr (JStr c) \<and>
             parse L c = Inr (published q')" by auto
next
  assume a: "subscript t ''ctd'' = Inr (JStr ''2022-01-01T12:00:00+01:00'') \<and>
    parse L ''2022-01-01T12:00:00+01:00''
      = Inr \<lparr>wall = civil 2022 1 1 12 0 0, utcoffset = Some 3600\<rparr> \<and>
    to_thread L tk t = Inr th"
  from to_thread_InrD [of L tk t th] a obtain ctd d where
    *: "subscript t ''ctd'' = Inr ctd" "dateparser_parse L ctd = Inr d"
       "thread.published th = astimezone_utc L d" by auto
  from * a have "d = \<lparr>wall = civil 2022 1 1 12 0 0, utcoffset = Some 3600\<rparr>"
    by (auto simp: dateparser_parse_def)
  with * show "thread.published th = \<lparr>wall = civil 2022 1 1 11 0 0, utcoffset = Some 0\<rparr>"
    by (simp add: astimezone_utc_def civil_def)
next
  fix x assume "get_ticker_threads L backend tk s = (Inr ths, s')" "x \<in> set ths"
  from get_ticker_threads_origin [OF this] obtain t0 where "to_thread L tk t0 = Inr x" ..
  from to_thread_InrD [OF this] show "utcoffset (thread.published x) = Some 0"
    by (auto simp: utcoffset_astimezone_utc)
next
  fix x assume "get_thread_postings L backend tk tr s = Some (Inr ps, s')" "x \<in> set ps"
  from get_thread_postings_origin [OF this] obtain r0 where "to_ticker_posting L tr r0 = Inr x" ..
  from to_ticker_posting_InrD [OF this] show "utcoffset (published x) = Some 0"
    by (auto simp: utcoffset_astimezone_utc)
qed

theorem published_timezone_asymmetry_witness:
  "to_thread iso_lib (IntId 1) example_thread
     = Inr (projr (to_thread iso_lib (IntId 1) example_thread)) \<and>
   subscript example_thread ''ctd'' = Inr (JStr ''2022-01-01T12:00:00+01:00'') \<and>
   parse iso_lib ''2022-01-01T12:00:00+01:00''
     = Inr \<lparr>wall = civil 2022 1 1 12 0 0, utcoffset = Some 3600\<rparr> \<and>
   thread.published (projr (to_thread iso_lib (IntId 1) example_thread))
     = \<lparr>wall = civil 2022 1 1 11 0 0, utcoffset = Some 0\<rparr> \<and>
   to_ticker_posting iso_lib (IntId 5) (ticker_posting 1)
     = Inr (projr (to_ticker_posting iso_lib (IntId 5) (ticker_posting 1))) \<and>
   utcoffset (published (projr (to_ticker_posting iso_lib (IntId 5) (ticker_posting 1)))) = Some 0 \<and>
   to_forum_posting iso_lib (json_of (example_node ''a'' ''Published'' ''a'' []))
     = Inr (projr (to_forum_posting iso_lib (json_of (example_node ''a'' ''Published'' ''a'' [])))) \<and>
   published (projr (to_forum_posting iso_lib (json_of (example_node ''a'' ''Published'' ''a'' []))))
     = \<lparr>wall = civil 2022 1 1 12 0 0, utcoffset = Some 3600\<rparr> \<and>
   get_ticker_threads iso_lib example_threads_backend (IntId 1) []
     = (Inr (projr (fst (get_ticker_threads iso_lib example_threads_backend (IntId 1) []))),
        [Redcontent (IntId 1) 1000000]) \<and>
   length (projr (fst (get_ticker_threads iso_lib example_threads_backend (IntId 1) []))) = 1 \<and>
   list_all (\<lambda>x. utcoffset (thread.published x) = Some 0)
     (projr (fst (get_ticker_threads iso_lib example_threads_backend (IntId 1) []))) \<and>
   get_thread_postings iso_lib example_pages_backend (IntId 1) (IntId 5) []
     = Some (Inr (projr (fst (the (get_thread_postings iso_lib example_pages_backend (IntId 1) (IntId 5) [])))),
        snd (the (get_thread_postings iso_lib example_pages_backend (IntId 1) (IntId 5) []))) \<and>
   length (projr (fst (the (get_thread_postings iso_lib example_pages_backend (IntId 1) (IntId 5) [])))) = 3 \<and>
   list_all (\<lambda>x. utcoffset (published x) = Some 0)
     (projr (fst (the (get_thread_postings iso_lib example_pages_backend (IntId 1) (IntId 5) []))))"
proof -
  let ?th = "projr (to_thread iso_lib (IntId 1) example_thread)"
  let ?q = "projr (to_ticker_posting iso_lib (IntId 5) (ticker_posting 1))"
  let ?n = "json_of (example_node ''a'' ''Published'' ''a'' [])"
  let ?q' = "projr (to_forum_posting iso_lib ?n)"
  let ?ths = "projr (fst (get_ticker_threads iso_lib example_threads_backend (IntId 1) []))"
  let ?r = "the (get_thread_postings iso_lib example_pages_backend (IntId 1) (IntId 5) [])"
  let ?d = "\<lparr>wall = civil 2022 1 1 12 0 0, utcoffset = Some 3600\<rparr>"
  have h1: "to_thread iso_lib (IntId 1) example_thread = Inr ?th" by code_simp
  have h2: "subscript example_thread ''ctd'' = Inr (JStr ''2022-01-01T12:00:00+01:00'')"
    by code_simp
  have h3: "parse iso_lib ''2022-01-01T12:00:00+01:00'' = Inr ?d" by code_simp
  have h4: "to_ticker_posting iso_lib (IntId 5) (ticker_posting 1) = Inr ?q" by code_simp
  have h5: "to_forum_posting iso_lib ?n = Inr ?q'" by code_simp
  have h6: "get_ticker_threads iso_lib example_threads_backend (IntId 1) []
     = (Inr ?ths, [Redcontent (IntId 1) 1000000])" by code_simp
  have h7: "get_thread_postings iso_lib example_pages_backend (IntId 1) (IntId 5) []
     = Some (Inr (projr (fst ?r)), snd ?r)" by code_simp
  have h8: "subscript ?n ''history'' = Inr (JObj [(''created'', JStr ''2022-01-01T12:00:00+01:00'')])"
    by code_simp
  have l1: "length ?ths = 1" by code_simp
  have l2: "length (projr (fst ?r)) = 3" by code_simp
  note T = published_timezone_asymmetry [where L = iso_lib and tk = "IntId 1" and tr = "IntId 5"
      and t = example_thread and th = ?th and r = "ticker_posting 1" and q = ?q and p = ?n
      and q' = ?q' and s = "[]"]
  from T [where backend = example_threads_backend and ths = ?ths] h1 h2 h3 h6
  have c1: "thread.published ?th = \<lparr>wall = civil 2022 1 1 11 0 0, utcoffset = Some 0\<rparr>"
    "\<forall>x \<in> set ?ths. utcoffset (thread.published x) = Some 0"
    by blast+
  from T [where backend = example_pages_backend and ps = "projr (fst ?r)"] h4 h7
  have c2: "utcoffset (published ?q) = Some 0"
    "\<forall>x \<in> set (projr (fst ?r)). utcoffset (published x) = Some 0"
    by blast+
  from T [where backend = example_pages_backend] h5
  obtain h c where "subscript ?n ''history'' = Inr h" "subscript h ''created'' = Inr (JStr c)"
    "parse iso_lib c = Inr (published ?q')" by blast
  with h8 h3 have c3: "published ?q' = ?d" by simp
  from c1(2) c2(2)
  have c4: "list_all (\<lambda>x. utcoffset (thread.published x) = Some 0) ?ths"
    "list_all (\<lambda>x. utcoffset (published x) = Some 0) (projr (fst ?r))"
    by (simp_all add: list_all_iff)
  from h1 h2 h3 h4 h5 h6 h7 l1 l2 c1(1) c2(1) c3 c4 show ?thesis
    by (intro conjI)
qed

section \<open>Flattening the reply tree\<close>

lemma subscript_json_of [simp]:
  "subscript (json_of n) ''id'' = Inr (nid n)"
  "subscript (json_of n) ''lifecycleStatus'' = Inr (lifecycleStatus n)"
  "subscript (json_of n) ''author'' = Inr (author n)"
  "subscript (json_of n) ''title'' = Inr (ntitle n)"
  "subscript (json_of n) ''text'' = Inr (ntext n)"
  "subscript (json_of n) ''reactions'' = Inr (reactions n)"
  "subscript (json_of n) ''history'' = Inr (history n)"
  "subscript (json_of n) ''rootPostingId'' = Inr (rootPostingId n)"
  "subscript (json_of n) ''replies'' = Inr (JArr (map json_of (replies n)))"
  by (cases n; simp)+

lemma linearize_loop_typed:
  assumes "\<And>e. e \<in> set es \<Longrightarrow>
    linearize (JArr (map json_of (replies e))) = Inr (map json_of (below e))"
  shows "linearize_loop (map json_of es) acc = Inr (acc @ map json_of (concat (map below es)))"
  using assms
proof (induction es arbitrary: acc)
  case Nil
  show ?case by simp
next
  case (Cons e es)
  have "linearize (JArr (map json_of (replies e))) = Inr (map json_of (below e))"
    using Cons.prems by simp
  moreover have "linearize_loop (map json_of es) (acc @ map json_of (below e))
      = Inr ((acc @ map json_of (below e)) @ map json_of (concat (map below es)))"
    using Cons.prems by (intro Cons.IH) simp
  ultimately show ?case by simp
qed

lemma linearize_replies:
  "linearize (JArr (map json_of (replies n))) = Inr (map json_of (below n))"
proof (induction n)
  case (FNode i st a ti te re h r rs)
  have "linearize_loop (map json_of rs) (map json_of rs)
      = Inr (map json_of rs @ map json_of (concat (map below rs)))"
    by (rule linearize_loop_typed) (rule FNode.IH)
  then show ?case by simp
qed

lemma linearize_forest:
  "linearize (JArr (map json_of forest)) = Inr (map json_of (siblings_first forest))"
  using linearize_replies [of "FNode JNull JNull JNull JNull JNull JNull JNull JNull forest"]
  by (simp add: siblings_first_def)

lemma siblings_first_below:
  "siblings_first forest = below (FNode JNull JNull JNull JNull JNull JNull JNull JNull forest)"
  by (simp add: siblings_first_def)

lemma mset_concat_split:
  assumes "\<And>r. r \<in> set rs \<Longrightarrow> mset (f r) = {#r#} + mset (g r)"
  shows "mset (concat (map f rs)) = mset rs + mset (concat (map g rs))"
  using assms by (induction rs) auto

lemma mset_preorder: "mset (preorder n) = {#n#} + mset (below n)"
proof (induction n)
  case (FNode i st a ti te re h r rs)
  have "mset (concat (map preorder rs)) = mset rs + mset (concat (map below rs))"
    by (rule mset_concat_split) (rule FNode.IH)
  then show ?case by simp
qed

lemma mset_descendants: "mset (descendants n) = mset (below n)"
proof (cases n)
  case (FNode i st a ti te re h r rs)
  have "mset (concat (map preorder rs)) = mset rs + mset (concat (map below rs))"
    by (rule mset_concat_split) (rule mset_preorder)
  with FNode show ?thesis by (simp add: descendants_def)
qed

lemma set_descendants: "set (descendants n) = set (below n)"
  using mset_descendants [of n] by (metis set_mset_mset)

lemma length_preorder: "length (preorder n) = node_count n"
proof (induction n)
  case (FNode i st a ti te re h r rs)
  have "(\<Sum>x\<leftarrow>rs. length (preorder x)) = sum_list (map node_count rs)"
    using FNode.IH by (induction rs) auto
  then show ?case by (simp add: length_concat o_def)
qed

lemma length_below: "Suc (length (below n)) = node_count n"
  using mset_preorder [of n] length_preorder [of n]
  by (metis add_mset_add_single mset.simps(2) size_mset union_commute length_Cons)

lemma concat_split:
  "concat xss = pre @ x # post \<Longrightarrow> \<exists>ys \<in> set xss. \<exists>p q r. ys = p @ x # q \<and> post = q @ r"
proof (induction xss arbitrary: pre)
  case Nil
  then show ?case by simp
next
  case (Cons xs xss)
  from Cons.prems have "xs @ concat xss = pre @ x # post" by simp
  then consider (here) q where "xs = pre @ x # q" "post = q @ concat xss"
    | (later) us where "pre = xs @ us" "concat xss = us @ x # post"
    by (auto simp: append_eq_append_conv2 append_eq_Cons_conv)
  then show ?case
  proof cases
    case here
    then show ?thesis by auto
  next
    case later
    from Cons.IH [OF later(2)] show ?thesis by auto
  qed
qed

lemma below_after: "below m = pre @ n # post \<Longrightarrow> set (below n) \<subseteq> set post"
proof (induction m arbitrary: pre post)
  case (FNode i st a ti te re h r rs)
  from FNode.prems have "rs @ concat (map below rs) = pre @ n # post" by simp
  then consider (top) q where "rs = pre @ n # q" "post = q @ concat (map below rs)"
    | (deep) us where "pre = rs @ us" "concat (map below rs) = us @ n # post"
    by (auto simp: append_eq_append_conv2 append_eq_Cons_conv)
  then show ?case
  proof cases
    case top
    then have "n \<in> set rs" by simp
    then have "set (below n) \<subseteq> set (concat (map below rs))" by auto
    with top show ?thesis by auto
  next
    case deep
    from concat_split [OF deep(2)] obtain m' p q r' where
      m': "m' \<in> set rs" and ys: "below m' = p @ n # q" and post: "post = q @ r'"
      by auto
    from FNode.IH [OF m' ys] post show ?thesis by auto
  qed
qed

lemma subseq_concat_member: "xs \<in> set xss \<Longrightarrow> subseq xs (concat xss)"
proof (induction xss)
  case Nil
  then show ?case by simp
next
  case (Cons ys xss)
  show ?case
  proof (cases "xs = ys")
    case True
    then show ?thesis by (simp add: subseq_rev_drop_many)
  next
    case False
    with Cons have "subseq xs (concat xss)" by simp
    then show ?thesis by (simp add: subseq_drop_many)
  qed
qed

lemma below_subseq: "n \<in> set (below m) \<Longrightarrow> subseq (below n) (below m)"
proof (induction m)
  case (FNode i st a ti te re h r rs)
  from FNode.prems consider (top) "n \<in> set rs"
    | (deep) m' where "m' \<in> set rs" "n \<in> set (below m')"
    by auto
  then have "subseq (below n) (concat (map below rs))"
  proof cases
    case top
    then show ?thesis by (intro subseq_concat_member) simp
  next
    case deep
    from FNode.IH [OF deep] have "subseq (below n) (below m')" .
    moreover have "subseq (below m') (concat (map below rs))"
      using deep(1) by (intro subseq_concat_member) simp
    ultimately show ?thesis by (rule subseq_order.order_trans)
  qed
  then show ?case by (simp add: subseq_drop_many)
qed

lemma replies_subseq_below: "subseq (replies n) (below n)"
  by (cases n) (simp add: subseq_rev_drop_many)

text \<open>
  Claim C6. \<open>linearize\<close> lists every node of the reply tree once: the length of the list
  is the number of nodes, it holds the same nodes as the pre-order, every node stands
  before all of its descendants, and the replies of a node keep the order of the backend.
  The order is \<open>siblings_first\<close>: all nodes of a level, then what is below each of them.
\<close>

theorem linearize_lists_siblings_first:
  "linearize (JArr (map json_of forest)) = Inr (map json_of (siblings_first forest)) \<and>
   length (siblings_first forest) = sum_list (map node_count forest) \<and>
   mset (siblings_first forest) = mset (concat (map preorder forest)) \<and>
   prefix forest (siblings_first forest) \<and>
   (\<forall>pre n post. siblings_first forest = pre @ n # post \<longrightarrow>
      set (descendants n) \<subseteq> set post) \<and>
   (\<forall>n \<in> set (siblings_first forest). subseq (replies n) (siblings_first forest))"
proof -
  let ?root = "FNode JNull JNull JNull JNull JNull JNull JNull JNull forest"
  have sf: "siblings_first forest = below ?root" by (rule siblings_first_below)
  have "Suc (length (siblings_first forest)) = Suc (sum_list (map node_count forest))"
    using length_below [of ?root] by (simp add: sf)
  then have len: "length (siblings_first forest) = sum_list (map node_count forest)" by simp
  have "mset (descendants ?root) = mset (below ?root)" by (rule mset_descendants)
  then have ms: "mset (siblings_first forest) = mset (concat (map preorder forest))"
    by (simp add: sf descendants_def)
  have pre: "prefix forest (siblings_first forest)" by (simp add: siblings_first_def)
  have after: "set (descendants n) \<subseteq> set post"
    if "siblings_first forest = pre @ n # post" for pre n post
    using below_after [of ?root pre n post] that by (simp add: sf set_descendants)
  have sib: "subseq (replies n) (siblings_first forest)" if "n \<in> set (siblings_first forest)" for n
  proof -
    from that have "subseq (below n) (below ?root)" unfolding sf by (rule below_subseq)
    with replies_subseq_below [of n] show ?thesis
      unfolding sf by (rule subseq_order.order_trans)
  qed
  from linearize_forest len ms pre after sib show ?thesis by blast
qed

theorem linearize_lists_siblings_first_witness:
  "siblings_first example_forest = [node_a, node_e] @ node_b # [node_c, node_d] \<and>
   descendants node_b = [node_d] \<and>
   set (descendants node_b) \<subseteq> set [node_c, node_d] \<and>
   replies node_a = [node_b, node_c] \<and>
   subseq (replies node_a) (siblings_first example_forest) \<and>
   length (siblings_first example_forest) = 5"
proof -
  have h1: "siblings_first example_forest = [node_a, node_e] @ node_b # [node_c, node_d]"
    by code_simp
  have h2: "descendants node_b = [node_d]" by code_simp
  have h3: "replies node_a = [node_b, node_c]" by code_simp
  have h4: "node_a \<in> set (siblings_first example_forest)" by (simp add: h1)
  have h5: "sum_list (map node_count example_forest) = 5" by code_simp
  note T = linearize_lists_siblings_first [of example_forest]
  from T h1 have c1: "set (descendants node_b) \<subseteq> set [node_c, node_d]" by blast
  from T h4 have c2: "subseq (replies node_a) (siblings_first example_forest)" by blast
  from T h5 have c3: "length (siblings_first example_forest) = 5" by simp
  from h1 h2 h3 c1 c2 c3 show ?thesis by (intro conjI)
qed

text \<open>
  The list is not the pre-order of the tree: in the pre-order the replies \<open>b\<close>, \<open>d\<close>, \<open>c\<close>
  of the root \<open>a\<close> stand before the second root \<open>e\<close>; \<open>linearize\<close> lists both roots first.
\<close>

theorem linearize_is_not_preorder:
  "map nid (concat (map preorder example_forest))
     = [JStr ''a'', JStr ''b'', JStr ''d'', JStr ''c'', JStr ''e''] \<and>
   linearize (JArr (map json_of example_forest))
     = Inr (map json_of [node_a, node_e, node_b, node_c, node_d]) \<and>
   linearize (JArr (map json_of example_forest))
     \<noteq> Inr (map json_of (concat (map preorder example_forest)))"
  by code_simp

section \<open>Forum postings of a well-formed response\<close>

lemma py_eq_JStr: "py_eq v (JStr s) \<longleftrightarrow> v = JStr s"
  by (cases v) auto

lemma published_postings_typed:
  "published_postings L (map json_of ns)
     = mapM (\<lambda>n. to_forum_posting L (json_of n)) (filter is_published ns)"
  by (induction ns) (simp_all add: is_published_def py_eq_JStr)

lemma mapM_node: "mapM (\<lambda>e. subscript e ''node'') (map (\<lambda>n. JObj [(''node'', json_of n)]) forest)
    = Inr (map json_of forest)"
  by (induction forest) simp_all

lemma get_forum_postings_typed:
  assumes "backend (GetForumInfo a) s = (Inr (forum_info_response fid), s1)"
    and "backend (ThreadsByForumQuery fid 18 100000) s1 = (Inr (root_postings_response forest), s2)"
  shows "get_forum_postings L backend a s
    = (mapM (\<lambda>n. to_forum_posting L (json_of n)) (filter is_published (siblings_first forest)), s2)"
proof -
  have id: "get_forum_id backend a s = (Inr fid, s1)"
    using assms(1) by (simp add: get_forum_id_def forum_info_response_def)
  show ?thesis
    using assms(2)
    by (simp add: get_forum_postings_def id root_postings_response_def mapM_node
        linearize_forest published_postings_typed del: linearize.simps)
qed

lemma mapM_Inr_iff: "mapM f xs = Inr ys \<longleftrightarrow> list_all2 (\<lambda>x y. f x = Inr y) xs ys"
proof (induction xs arbitrary: ys)
  case Nil
  show ?case by auto
next
  case (Cons x xs)
  show ?case
    by (cases ys) (auto simp: bind_Inr_iff Cons.IH)
qed

lemma to_forum_posting_typed:
  assumes "to_forum_posting L (json_of n) = Inr q"
  shows "posting_id q = nid n \<and>
         parent_id q = (if py_eq (nid n) (rootPostingId n) then JNull else rootPostingId n)"
  using to_forum_posting_InrD [OF assms] by auto

section \<open>Parent of a forum posting\<close>




section \<open>Deduplication of ticker postings\<close>

lemma py_eq_refl: "hashable k \<Longrightarrow> py_eq k k"
  by (cases k) auto

lemma py_eq_hashable: "hashable a \<Longrightarrow> py_eq a b \<Longrightarrow> hashable b"
  by (cases a; cases b) auto

lemma py_eq_sym: "hashable a \<Longrightarrow> py_eq a b \<Longrightarrow> py_eq b a"
  by (cases a; cases b) (auto split: if_splits)

lemma py_eq_trans: "hashable a \<Longrightarrow> py_eq a b \<Longrightarrow> py_eq b c \<Longrightarrow> py_eq a c"
  by (cases a; cases b; cases c) (auto split: if_splits)

lemma py_distinct_append:
  "py_distinct (ks @ [k]) \<longleftrightarrow> py_distinct ks \<and> (\<forall>k' \<in> set ks. \<not> py_eq k' k)"
  by (induction ks) (auto simp: list_all_iff)

lemma py_distinct_distinct: "py_distinct ks \<Longrightarrow> \<forall>k \<in> set ks. hashable k \<Longrightarrow> distinct ks"
  by (induction ks) (auto simp: list_all_iff dest: py_eq_refl)

lemma dict_set_keys:
  "map fst (dict_set d k v)
     = (if \<exists>k' \<in> set (map fst d). py_eq k' k then map fst d else map fst d @ [k])"
proof (induction d)
  case Nil
  show ?case by simp
next
  case (Cons kv d)
  obtain k0 v0 where kv: "kv = (k0, v0)" by (cases kv)
  show ?case
  proof (cases "py_eq k0 k")
    case True
    then show ?thesis by (simp add: kv)
  next
    case False
    with Cons.IH show ?thesis by (simp add: kv)
  qed
qed

lemma dict_set_entries:
  "(k0, v0) \<in> set (dict_set d k v) \<Longrightarrow> hashable k \<Longrightarrow>
     (k0, v0) \<in> set d \<or> (v0 = v \<and> py_eq k0 k)"
  by (induction d) (auto split: if_splits dest: py_eq_refl)

lemma dict_ok_set:
  assumes "dict_ok d" "hashable k" "subscript p ''pid'' = Inr k"
  shows "dict_ok (dict_set d k p)"
proof -
  have keys: "py_distinct (map fst (dict_set d k p))"
    using assms(1) by (auto simp: dict_set_keys dict_ok_def py_distinct_append)
  have "hashable k0 \<and> pid_is k0 v0" if "(k0, v0) \<in> set (dict_set d k p)" for k0 v0
  proof -
    from dict_set_entries [OF that assms(2)]
    consider "(k0, v0) \<in> set d" | "v0 = p" "py_eq k0 k" by blast
    then show ?thesis
    proof cases
      case 1
      with assms(1) show ?thesis by (auto simp: dict_ok_def)
    next
      case 2
      from py_eq_sym [OF _ 2(2)] py_eq_hashable [OF assms(2)] assms(2) 2
      have "hashable k0" "py_eq k k0"
        by (cases k0; cases k; auto split: if_splits)+
      with 2 assms(3) show ?thesis by (simp add: pid_is_def)
    qed
  qed
  with keys show ?thesis by (auto simp: dict_ok_def)
qed

lemma dict_ok_by_pid: "dict_by_pid ps d = Inr d' \<Longrightarrow> dict_ok d \<Longrightarrow> dict_ok d'"
proof (induction ps arbitrary: d)
  case Nil
  then show ?case by simp
next
  case (Cons p ps)
  from Cons.prems(1) obtain k where k: "subscript p ''pid'' = Inr k" "hashable k"
    and rest: "dict_by_pid ps (dict_set d k p) = Inr d'"
    by (auto simp: bind_Inr_iff split: if_splits)
  from Cons.IH [OF rest dict_ok_set [OF Cons.prems(2) k(2) k(1)]] show ?case .
qed

lemma dict_ok_pids:
  assumes "dict_ok d" and "list_all2 (\<lambda>kv k'. subscript (snd kv) ''pid'' = Inr k') d ks"
  shows "py_distinct ks \<and> (\<forall>k \<in> set ks. hashable k)"
  using assms
proof (induction d arbitrary: ks)
  case Nil
  then show ?case by simp
next
  case (Cons kv d)
  from Cons.prems(2) obtain k' ks' where ks: "ks = k' # ks'"
    and k': "subscript (snd kv) ''pid'' = Inr k'"
    and rest: "list_all2 (\<lambda>kv k'. subscript (snd kv) ''pid'' = Inr k') d ks'"
    by (auto simp: list_all2_Cons1)
  obtain k v where kv: "kv = (k, v)" by (cases kv)
  from Cons.prems(1) have ok: "dict_ok d" and hk: "hashable k" and pk: "py_eq k' k"
    and fresh: "\<forall>k2 \<in> set (map fst d). \<not> py_eq k k2"
    using k' by (auto simp: dict_ok_def kv pid_is_def list_all_iff)
  from Cons.IH [OF ok rest] have IH: "py_distinct ks'" "\<forall>k \<in> set ks'. hashable k" by auto
  have kk': "py_eq k k'" "hashable k'"
    using hk pk by (cases k; cases k'; auto split: if_splits)+
  have "\<not> py_eq k' x" if "x \<in> set ks'" for x
  proof
    assume e: "py_eq k' x"
    from that obtain i where i: "i < length ks'" "ks' ! i = x"
      by (auto simp: in_set_conv_nth)
    from rest i have "i < length d" "subscript (snd (d ! i)) ''pid'' = Inr x"
      by (auto simp: list_all2_conv_all_nth)
    then have "d ! i \<in> set d \<and> subscript (snd (d ! i)) ''pid'' = Inr x" by simp
    then obtain kv2 where kv2: "kv2 \<in> set d" "subscript (snd kv2) ''pid'' = Inr x"
      by blast
    from kv2 ok have "py_eq x (fst kv2)"
      by (cases kv2) (auto simp: dict_ok_def pid_is_def)
    with py_eq_trans [OF hk kk'(1) e] py_eq_hashable [OF hk] have "py_eq k (fst kv2)"
      by (meson py_eq_trans hk)
    with fresh kv2(1) show False by auto
  qed
  with IH kk' show ?case by (auto simp: ks list_all_iff)
qed

lemma remove_duplicates_ok:
  assumes "remove_duplicates raw = Inr vs"
  shows "\<exists>d. dict_by_pid raw [] = Inr d \<and> dict_ok d \<and> vs = map snd d"
proof -
  from assms obtain d where d: "dict_by_pid raw [] = Inr d" "vs = map snd d"
    by (auto simp: remove_duplicates_def bind_Inr_iff)
  have "dict_ok []" by (simp add: dict_ok_def)
  from dict_ok_by_pid [OF d(1) this] d show ?thesis by blast
qed

lemma dict_get_set:
  assumes "hashable k" "\<forall>k0 \<in> set (map fst d). hashable k0"
  shows "dict_get (dict_set d k v) k2 = (if py_eq k k2 then Some v else dict_get d k2)"
  using assms(2)
proof (induction d)
  case Nil
  then show ?case by simp
next
  case (Cons kv d)
  obtain k0 v0 where kv: "kv = (k0, v0)" by (cases kv)
  from Cons.prems have h0: "hashable k0" by (simp add: kv)
  from Cons have IH: "dict_get (dict_set d k v) k2 = (if py_eq k k2 then Some v else dict_get d k2)"
    by simp
  show ?case
  proof (cases "py_eq k0 k")
    case True
    have "py_eq k0 k2 \<longleftrightarrow> py_eq k k2"
      using True h0 assms(1) py_eq_trans py_eq_sym by blast
    with True show ?thesis by (simp add: kv)
  next
    case False
    have "\<not> (py_eq k0 k2 \<and> py_eq k k2)"
    proof
      assume a: "py_eq k0 k2 \<and> py_eq k k2"
      then have "py_eq k2 k" using assms(1) py_eq_sym by blast
      with a h0 have "py_eq k0 k" using py_eq_trans by blast
      with False show False ..
    qed
    with False IH show ?thesis by (auto simp: kv)
  qed
qed

lemma dict_by_pid_get:
  assumes "dict_by_pid raw d = Inr d'" "\<forall>k0 \<in> set (map fst d). hashable k0"
  shows "dict_get d' k
    = (if filter (pid_is k) raw = [] then dict_get d k else Some (last (filter (pid_is k) raw)))"
  using assms
proof (induction raw arbitrary: d)
  case Nil
  then show ?case by simp
next
  case (Cons p ps)
  from Cons.prems(1) obtain kp where kp: "subscript p ''pid'' = Inr kp" "hashable kp"
    and rest: "dict_by_pid ps (dict_set d kp p) = Inr d'"
    by (auto simp: bind_Inr_iff split: if_splits)
  have keys: "\<forall>k0 \<in> set (map fst (dict_set d kp p)). hashable k0"
    using Cons.prems(2) kp(2) by (auto simp: dict_set_keys)
  have here: "pid_is k p \<longleftrightarrow> py_eq kp k" by (simp add: pid_is_def kp)
  from Cons.IH [OF rest keys] dict_get_set [OF kp(2) Cons.prems(2), of p k]
  show ?case by (auto simp: here)
qed

lemma dict_get_member: "dict_get d k = Some v \<Longrightarrow> v \<in> set (map snd d)"
  by (induction d) (auto split: if_splits)

lemma mapM_forward: "mapM f xs = Inr ys \<Longrightarrow> x \<in> set xs \<Longrightarrow> \<exists>y \<in> set ys. f x = Inr y"
proof (induction xs arbitrary: ys)
  case Nil
  then show ?case by simp
next
  case (Cons a xs)
  from Cons.prems(1) obtain b bs where b: "f a = Inr b" and bs: "mapM f xs = Inr bs"
    and ys: "ys = b # bs"
    by (auto simp: bind_Inr_iff)
  show ?case
  proof (cases "x = a")
    case True
    with b ys show ?thesis by simp
  next
    case False
    with Cons.prems(2) have "x \<in> set xs" by simp
    from Cons.IH [OF bs this] ys show ?thesis by auto
  qed
qed

lemma dict_by_pid_pids:
  "dict_by_pid raw d = Inr d' \<Longrightarrow> r \<in> set raw \<Longrightarrow> \<exists>k. subscript r ''pid'' = Inr k \<and> hashable k"
proof (induction raw arbitrary: d)
  case Nil
  then show ?case by simp
next
  case (Cons p ps)
  from Cons.prems(1) obtain kp where kp: "subscript p ''pid'' = Inr kp" "hashable kp"
    and rest: "dict_by_pid ps (dict_set d kp p) = Inr d'"
    by (auto simp: bind_Inr_iff split: if_splits)
  show ?case
  proof (cases "r = p")
    case True
    with kp show ?thesis by blast
  next
    case False
    with Cons.prems(2) have "r \<in> set ps" by simp
    from Cons.IH [OF rest this] show ?thesis .
  qed
qed

lemma get_thread_postings_InrD:
  assumes "get_thread_postings L backend tk tr s = Some (Inr ps, s')"
  shows "\<exists>raw vs. fetch_pages backend tk tr s = Some (Inr raw, s') \<and>
           remove_duplicates raw = Inr vs \<and> mapM (to_ticker_posting L tr) vs = Inr ps"
  using assms
  by (auto simp: get_thread_postings_def bind_Inr_iff split: option.splits prod.splits sum.splits)

lemma ticker_posting_ids:
  assumes "mapM (to_ticker_posting L tr) (map snd d) = Inr ps"
  shows "list_all2 (\<lambda>kv k'. subscript (snd kv) ''pid'' = Inr k') d (map posting_id ps)"
proof -
  from assms have "list_all2 (\<lambda>v q. to_ticker_posting L tr v = Inr q) (map snd d) ps"
    by (simp add: mapM_Inr_iff)
  then have "list_all2 (\<lambda>kv q. to_ticker_posting L tr (snd kv) = Inr q) d ps"
    by (simp add: list_all2_map1)
  then have "list_all2 (\<lambda>kv q. subscript (snd kv) ''pid'' = Inr (posting_id q)) d ps"
  proof (rule list_all2_mono)
    fix kv q assume "to_ticker_posting L tr (snd kv) = Inr q"
    from to_ticker_posting_InrD [OF this]
    show "subscript (snd kv) ''pid'' = Inr (posting_id q)" by auto
  qed
  then show ?thesis by (simp add: list_all2_map2)
qed

lemma deduplicated_ids:
  assumes "remove_duplicates raw = Inr vs" "mapM (to_ticker_posting L tr) vs = Inr ps"
  shows "py_distinct (map posting_id ps) \<and> distinct (map posting_id ps)"
proof -
  from remove_duplicates_ok [OF assms(1)] obtain d where
    d: "dict_by_pid raw [] = Inr d" "dict_ok d" "vs = map snd d" by blast
  from assms(2) d(3) have "mapM (to_ticker_posting L tr) (map snd d) = Inr ps" by simp
  from dict_ok_pids [OF d(2) ticker_posting_ids [OF this]]
  have "py_distinct (map posting_id ps)" "\<forall>k \<in> set (map posting_id ps). hashable k" by auto
  with py_distinct_distinct show ?thesis by blast
qed

lemma last_seen_wins:
  assumes "remove_duplicates raw = Inr vs" "mapM (to_ticker_posting L tr) vs = Inr ps"
    and "r \<in> set raw"
  shows "\<exists>k. subscript r ''pid'' = Inr k \<and>
           (\<exists>q \<in> set ps. to_ticker_posting L tr (last (filter (pid_is k) raw)) = Inr q \<and>
                         py_eq (posting_id q) k)"
proof -
  from remove_duplicates_ok [OF assms(1)] obtain d where
    d: "dict_by_pid raw [] = Inr d" "dict_ok d" "vs = map snd d" by blast
  from dict_by_pid_pids [OF d(1) assms(3)] obtain k where
    k: "subscript r ''pid'' = Inr k" "hashable k" by blast
  let ?v = "last (filter (pid_is k) raw)"
  have "pid_is k r" using k by (simp add: pid_is_def py_eq_refl)
  with assms(3) have ne: "filter (pid_is k) raw \<noteq> []"
    by (auto simp: filter_empty_conv)
  with dict_by_pid_get [OF d(1), of k] have "dict_get d k = Some ?v" by simp
  from dict_get_member [OF this] d(3) have "?v \<in> set vs" by simp
  from mapM_forward [OF assms(2) this] obtain q where
    q: "q \<in> set ps" "to_ticker_posting L tr ?v = Inr q" by blast
  from ne have "?v \<in> set (filter (pid_is k) raw)" by (rule last_in_set)
  then have "pid_is k ?v" by simp
  moreover from to_ticker_posting_InrD [OF q(2)]
  have "subscript ?v ''pid'' = Inr (posting_id q)" by auto
  ultimately have "py_eq (posting_id q) k" by (simp add: pid_is_def)
  with k(1) q show ?thesis by blast
qed

text \<open>
  Claim C1. The postings that \<open>get_thread_postings\<close> returns have pairwise different
  \<open>posting_id\<close>s, whatever pages the backend sent: every raw record of the pages is
  represented by exactly one posting with its id, built from the last raw record that has
  this id. The pages \<open>[1, 2]\<close>, \<open>[2, 3]\<close>, \<open>[]\<close> give three postings with the ids 1, 2, 3.
\<close>

theorem ticker_postings_unique_ids:
  "(get_thread_postings L backend tk tr s = Some (Inr ps, s') \<longrightarrow>
      distinct (map posting_id ps) \<and> py_distinct (map posting_id ps) \<and>
      (\<exists>raw. fetch_pages backend tk tr s = Some (Inr raw, s') \<and>
         (\<forall>r \<in> set raw. \<exists>k. subscript r ''pid'' = Inr k \<and>
            (\<exists>q \<in> set ps. to_ticker_posting L tr (last (filter (pid_is k) raw)) = Inr q \<and>
                          py_eq (posting_id q) k)))) \<and>
   map_option (\<lambda>r. (map_sum id (map posting_id) (fst r), snd r))
      (get_thread_postings iso_lib example_pages_backend (IntId 1) (IntId 5) [])
     = Some (Inr [JInt 1, JInt 2, JInt 3],
             [Postings (IntId 1) (IntId 5) None,
              Postings (IntId 1) (IntId 5) (Some (JInt 2)),
              Postings (IntId 1) (IntId 5) (Some (JInt 3))])"
proof (intro conjI impI)
  assume a: "get_thread_postings L backend tk tr s = Some (Inr ps, s')"
  from get_thread_postings_InrD [OF a] obtain raw vs where
    *: "fetch_pages backend tk tr s = Some (Inr raw, s')" "remove_duplicates raw = Inr vs"
       "mapM (to_ticker_posting L tr) vs = Inr ps" by blast
  from deduplicated_ids [OF *(2,3)]
  show "distinct (map posting_id ps)" "py_distinct (map posting_id ps)" by auto
  from last_seen_wins [OF *(2,3)] *(1)
  show "\<exists>raw. fetch_pages backend tk tr s = Some (Inr raw, s') \<and>
         (\<forall>r \<in> set raw. \<exists>k. subscript r ''pid'' = Inr k \<and>
            (\<exists>q \<in> set ps. to_ticker_posting L tr (last (filter (pid_is k) raw)) = Inr q \<and>
                          py_eq (posting_id q) k))"
    by blast
next
  show "map_option (\<lambda>r. (map_sum id (map posting_id) (fst r), snd r))
      (get_thread_postings iso_lib example_pages_backend (IntId 1) (IntId 5) [])
     = Some (Inr [JInt 1, JInt 2, JInt 3],
             [Postings (IntId 1) (IntId 5) None,
              Postings (IntId 1) (IntId 5) (Some (JInt 2)),
              Postings (IntId 1) (IntId 5) (Some (JInt 3))])"
    by code_simp
qed

theorem ticker_postings_unique_ids_witness:
  "get_thread_postings iso_lib overlap_backend (IntId 1) (IntId 5) []
     = Some (Inr (projr (fst (the (get_thread_postings iso_lib overlap_backend (IntId 1) (IntId 5) [])))),
             snd (the (get_thread_postings iso_lib overlap_backend (IntId 1) (IntId 5) []))) \<and>
   map posting_id (projr (fst (the (get_thread_postings iso_lib overlap_backend (IntId 1) (IntId 5) []))))
     = [JInt 1, JInt 2, JInt 3] \<and>
   distinct (map posting_id (projr (fst (the (get_thread_postings iso_lib overlap_backend (IntId 1) (IntId 5) []))))) \<and>
   map message (projr (fst (the (get_thread_postings iso_lib overlap_backend (IntId 1) (IntId 5) []))))
     = [JNull, JStr ''new'', JNull] \<and>
   map_option fst (fetch_pages overlap_backend (IntId 1) (IntId 5) [])
     = Some (Inr [ticker_posting 1, ticker_posting 2, edited_posting, ticker_posting 3]) \<and>
   last (filter (pid_is (JInt 2)) [ticker_posting 1, ticker_posting 2, edited_posting, ticker_posting 3])
     = edited_posting"
proof -
  let ?r = "the (get_thread_postings iso_lib overlap_backend (IntId 1) (IntId 5) [])"
  have h1: "get_thread_postings iso_lib overlap_backend (IntId 1) (IntId 5) []
     = Some (Inr (projr (fst ?r)), snd ?r)" by code_simp
  have h2: "map posting_id (projr (fst ?r)) = [JInt 1, JInt 2, JInt 3]" by code_simp
  have h3: "map message (projr (fst ?r)) = [JNull, JStr ''new'', JNull]" by code_simp
  have h4: "map_option fst (fetch_pages overlap_backend (IntId 1) (IntId 5) [])
     = Some (Inr [ticker_posting 1, ticker_posting 2, edited_posting, ticker_posting 3])"
    by code_simp
  have h5: "last (filter (pid_is (JInt 2))
      [ticker_posting 1, ticker_posting 2, edited_posting, ticker_posting 3]) = edited_posting"
    by code_simp
  from ticker_postings_unique_ids [of iso_lib overlap_backend "IntId 1" "IntId 5" "[]"
      "projr (fst ?r)" "snd ?r"] h1
  have c: "distinct (map posting_id (projr (fst ?r)))" by blast
  from h1 h2 c h3 h4 h5 show ?thesis by (intro conjI)
qed

section \<open>The pagination loop\<close>

lemma list_index_last: "xs \<noteq> [] \<Longrightarrow> list_index xs (- 1) = Inr (last xs)"
  by (cases xs rule: rev_cases) (auto simp: list_index_def nth_append)

lemma continues_iff:
  "continues (Inr page) \<longleftrightarrow>
     (\<exists>xs c. subscript page ''p'' = Inr (JArr xs) \<and> xs \<noteq> [] \<and>
             subscript (last xs) ''pid'' = Inr c)"
proof (cases "subscript page ''p''")
  case (Inl e)
  then show ?thesis by (simp add: continues_def)
next
  case (Inr p)
  show ?thesis
  proof (cases p)
    case (JArr xs)
    with Inr show ?thesis
      by (cases "subscript (last xs) ''pid''") (auto simp: continues_def)
  qed (use Inr in \<open>simp_all add: continues_def\<close>)
qed

lemma continues_Inl [simp]: "\<not> continues (Inl e)"
  by (simp add: continues_def)

lemma paginate_continue:
  assumes "subscript page ''p'' = Inr (JArr xs)" "xs \<noteq> []" "subscript (last xs) ''pid'' = Inr c"
  shows "paginate backend tk tr acc page s =
    (case get_thread_postings_page backend tk tr c s of
       (Inl e, s') \<Rightarrow> Some (Inl e, s')
     | (Inr page', s') \<Rightarrow> paginate backend tk tr (acc @ xs) page' s')"
  using assms by (subst paginate.simps) (simp add: list_index_last)

lemma paginate_stop:
  assumes "\<not> continues (Inr page)"
  shows "\<exists>r. paginate backend tk tr acc page s = Some (r, s)"
proof (cases "subscript page ''p''")
  case (Inl e)
  then show ?thesis by (subst paginate.simps) simp
next
  case (Inr p)
  show ?thesis
  proof (cases "truthy p")
    case False
    with Inr show ?thesis by (subst paginate.simps) simp
  next
    case True
    show ?thesis
    proof (cases p)
      case (JArr xs)
      with True have ne: "xs \<noteq> []" by simp
      with assms Inr JArr obtain e where "subscript (last xs) ''pid'' = Inl e"
        by (cases "subscript (last xs) ''pid''") (auto simp: continues_iff)
      with Inr JArr ne show ?thesis
        by (subst paginate.simps) (simp add: list_index_last)
    next
      case (JStr str)
      with True have "str \<noteq> []" by simp
      then have "list_index str (- 1) = Inr (last str)" by (rule list_index_last)
      with Inr JStr True show ?thesis
        by (subst paginate.simps) simp
    qed (use Inr True in \<open>subst paginate.simps, simp\<close>)+
  qed
qed

lemma page_scripted:
  "get_thread_postings_page (scripted script) tk tr c log
     = (script (length log), log @ [Postings tk tr (if truthy c then Some c else None)])"
  by (simp add: get_thread_postings_page_def scripted_def)

lemma paginate_scripted_halts:
  assumes "continues (Inr page)"
    and "\<forall>i<n. continues (script (length log + i))"
    and "\<not> continues (script (length log + n))"
  shows "\<exists>r log'. paginate (scripted script) tk tr acc page log = Some (r, log') \<and>
           length log' = length log + n + 1"
  using assms
proof (induction n arbitrary: acc page log)
  case 0
  from 0(1) obtain xs c where p: "subscript page ''p'' = Inr (JArr xs)" "xs \<noteq> []"
      "subscript (last xs) ''pid'' = Inr c"
    by (auto simp: continues_iff)
  let ?log = "log @ [Postings tk tr (if truthy c then Some c else None)]"
  show ?case
  proof (cases "script (length log)")
    case (Inl e)
    then show ?thesis
      by (simp add: paginate_continue [OF p] page_scripted)
  next
    case (Inr page')
    with 0(3) have "\<not> continues (Inr page')" by simp
    from paginate_stop [OF this, of "scripted script" tk tr "acc @ xs" ?log] obtain r where
      "paginate (scripted script) tk tr (acc @ xs) page' ?log = Some (r, ?log)" by blast
    with Inr show ?thesis
      by (simp add: paginate_continue [OF p] page_scripted)
  qed
next
  case (Suc n)
  from Suc.prems(1) obtain xs c where p: "subscript page ''p'' = Inr (JArr xs)" "xs \<noteq> []"
      "subscript (last xs) ''pid'' = Inr c"
    by (auto simp: continues_iff)
  let ?log = "log @ [Postings tk tr (if truthy c then Some c else None)]"
  from Suc.prems(2) have "continues (script (length log + 0))" by blast
  then obtain page' where page': "script (length log) = Inr page'" "continues (Inr page')"
    by (cases "script (length log)") auto
  have a: "\<forall>i<n. continues (script (length ?log + i))"
  proof (intro allI impI)
    fix i assume "i < n"
    then have "Suc i < Suc n" by simp
    with Suc.prems(2) have "continues (script (length log + Suc i))" by blast
    then show "continues (script (length ?log + i))" by simp
  qed
  have b: "\<not> continues (script (length ?log + n))" using Suc.prems(3) by simp
  from Suc.IH [OF page'(2) a b, of "acc @ xs"] obtain r log' where
    "paginate (scripted script) tk tr (acc @ xs) page' ?log = Some (r, log')"
    "length log' = length ?log + n + 1" by blast
  with page' show ?case
    by (simp add: paginate_continue [OF p] page_scripted)
qed

lemma paginate_scripted_diverges:
  assumes "\<forall>i. continues (script i)" "continues (Inr page)"
  shows "paginate (scripted script) tk tr acc page log = None"
proof (rule ccontr)
  assume "paginate (scripted script) tk tr acc page log \<noteq> None"
  then obtain y where y: "paginate (scripted script) tk tr acc page log = Some y" by blast
  have "\<not> (backend = scripted script \<and> continues (Inr page0))"
    if "paginate backend tk0 tr0 acc0 page0 log0 = Some y0"
    for backend tk0 tr0 acc0 page0 log0 y0
    apply (rule paginate.raw_induct
        [where P = "\<lambda>b t1 t2 a p l y. \<not> (b = scripted script \<and> continues (Inr p))"])
    subgoal premises prems for pag b t1 t2 a p l y
    proof
      assume c: "b = scripted script \<and> continues (Inr p)"
      then obtain xs c0 where p: "subscript p ''p'' = Inr (JArr xs)" "xs \<noteq> []"
          "subscript (last xs) ''pid'' = Inr c0"
        by (auto simp: continues_iff)
      from assms(1) have "continues (script (length l))" by blast
      then obtain page' where page': "script (length l) = Inr page'"
          "continues (Inr page')"
        by (cases "script (length l)") auto
      from prems(2) p c page'
      have "pag (scripted script) t1 t2 (a @ xs) page'
              (l @ [Postings t1 t2 (if truthy c0 then Some c0 else None)]) = Some y"
        by (simp add: list_index_last page_scripted)
      from prems(1) [OF this] page'(2) show False by simp
    qed
    apply (rule that)
    done
  from this [OF y] assms(2) show False by simp
qed

lemma fetch_pages_scripted:
  "fetch_pages (scripted script) tk tr [] =
     (case script 0 of
        Inl e \<Rightarrow> Some (Inl e, [Postings tk tr None])
      | Inr page \<Rightarrow> paginate (scripted script) tk tr [] page [Postings tk tr None])"
  by (simp add: fetch_pages_def page_scripted split: sum.splits)

lemma fetch_pages_halts:
  assumes "\<forall>i<n. continues (script i)" "\<not> continues (script n)"
  shows "\<exists>r log. fetch_pages (scripted script) tk tr [] = Some (r, log) \<and> length log = n + 1"
proof (cases n)
  case 0
  show ?thesis
  proof (cases "script 0")
    case (Inl e)
    with 0 show ?thesis by (simp add: fetch_pages_scripted)
  next
    case (Inr page)
    with assms(2) 0 have "\<not> continues (Inr page)" by simp
    from paginate_stop [OF this, of "scripted script" tk tr "[]" "[Postings tk tr None]"]
    show ?thesis using Inr 0 by (auto simp: fetch_pages_scripted)
  qed
next
  case (Suc m)
  with assms(1) have "continues (script 0)" by simp
  then obtain page where page: "script 0 = Inr page" "continues (Inr page)"
    by (cases "script 0") auto
  have a: "\<forall>i<m. continues (script (length [Postings tk tr None] + i))"
    using assms(1) Suc by simp
  have b: "\<not> continues (script (length [Postings tk tr None] + m))"
    using assms(2) Suc by simp
  from paginate_scripted_halts [OF page(2) a b, of tk tr "[]"] page(1) Suc
  show ?thesis by (auto simp: fetch_pages_scripted)
qed

lemma fetch_pages_diverges:
  assumes "\<forall>i. continues (script i)"
  shows "fetch_pages (scripted script) tk tr [] = None"
proof -
  from assms have "continues (script 0)" by blast
  then obtain page where page: "script 0 = Inr page" "continues (Inr page)"
    by (cases "script 0") auto
  from paginate_scripted_diverges [OF assms page(2)] page(1)
  show ?thesis by (simp add: fetch_pages_scripted)
qed

lemma get_thread_postings_Some:
  "fetch_pages backend tk tr s = Some (r, s') \<Longrightarrow>
     \<exists>r'. get_thread_postings L backend tk tr s = Some (r', s')"
  by (cases r) (simp_all add: get_thread_postings_def)

lemma get_thread_postings_None:
  "fetch_pages backend tk tr s = None \<Longrightarrow> get_thread_postings L backend tk tr s = None"
  by (simp add: get_thread_postings_def)

lemma continues_ticker_posting: "continues (Inr (page_of [ticker_posting i]))"
  by (simp add: continues_iff page_of_def ticker_posting_def)

lemma paginate_empty_page:
  "paginate backend tk tr acc (page_of []) s = Some (Inr acc, s)"
  by (subst paginate.simps) (simp add: page_of_def)

lemma paginate_scripted_collects:
  assumes "pg \<noteq> []" "subscript (last pg) ''pid'' = Inr c"
    and "\<forall>i<length pgs. script (length log + i) = Inr (page_of (pgs ! i))"
    and "\<forall>pg \<in> set pgs. pg \<noteq> [] \<and> (\<exists>c. subscript (last pg) ''pid'' = Inr c)"
    and "script (length log + length pgs) = Inr (page_of [])"
  shows "\<exists>log'. paginate (scripted script) tk tr acc (page_of pg) log
            = Some (Inr (acc @ pg @ concat pgs), log') \<and>
           length log' = length log + length pgs + 1"
  using assms
proof (induction pgs arbitrary: acc pg c log)
  case Nil
  have p: "subscript (page_of pg) ''p'' = Inr (JArr pg)" by (simp add: page_of_def)
  from Nil.prems(5) show ?case
    by (simp add: paginate_continue [OF p Nil.prems(1,2)] page_scripted paginate_empty_page)
next
  case (Cons pg1 pgs)
  have p: "subscript (page_of pg) ''p'' = Inr (JArr pg)" by (simp add: page_of_def)
  let ?log = "log @ [Postings tk tr (if truthy c then Some c else None)]"
  from Cons.prems(3) have next_page: "script (length log) = Inr (page_of pg1)" by fastforce
  from Cons.prems(4) obtain c1 where g1: "pg1 \<noteq> []" "subscript (last pg1) ''pid'' = Inr c1"
    by auto
  have a: "\<forall>i<length pgs. script (length ?log + i) = Inr (page_of (pgs ! i))"
  proof (intro allI impI)
    fix i assume "i < length pgs"
    then have "Suc i < length (pg1 # pgs)" by simp
    with Cons.prems(3) have "script (length log + Suc i) = Inr (page_of ((pg1 # pgs) ! Suc i))"
      by blast
    then show "script (length ?log + i) = Inr (page_of (pgs ! i))" by simp
  qed
  have b: "\<forall>pg \<in> set pgs. pg \<noteq> [] \<and> (\<exists>c. subscript (last pg) ''pid'' = Inr c)"
    using Cons.prems(4) by simp
  have e: "script (length ?log + length pgs) = Inr (page_of [])"
    using Cons.prems(5) by simp
  from Cons.IH [OF g1 a b e, of "acc @ pg"] next_page
  show ?case
    by (simp add: paginate_continue [OF p Cons.prems(1,2)] page_scripted)
qed

lemma replay_nth: "i < length rs \<Longrightarrow> replay rs i = Inr (rs ! i)"
  by (simp add: replay_def)

lemma fetch_pages_replay:
  assumes "\<forall>pg \<in> set pages. pg \<noteq> [] \<and> (\<exists>c. subscript (last pg) ''pid'' = Inr c)"
  shows "\<exists>log. fetch_pages (scripted (replay (map page_of pages @ page_of [] # rest))) tk tr []
            = Some (Inr (concat pages), log) \<and> length log = length pages + 1"
proof (cases pages)
  case Nil
  then show ?thesis
    by (simp add: fetch_pages_scripted replay_nth paginate_empty_page)
next
  case (Cons pg pgs)
  let ?script = "replay (map page_of pages @ page_of [] # rest)"
  let ?log = "[Postings tk tr None]"
  from assms Cons obtain c where g: "pg \<noteq> []" "subscript (last pg) ''pid'' = Inr c" by auto
  have a: "\<forall>i<length pgs. ?script (length ?log + i) = Inr (page_of (pgs ! i))"
    by (simp add: Cons replay_nth nth_append)
  have b: "\<forall>pg \<in> set pgs. pg \<noteq> [] \<and> (\<exists>c. subscript (last pg) ''pid'' = Inr c)"
    using assms Cons by simp
  have e: "?script (length ?log + length pgs) = Inr (page_of [])"
    by (simp add: Cons replay_nth nth_append)
  have first: "?script 0 = Inr (page_of pg)" by (simp add: Cons replay_nth)
  from paginate_scripted_collects [OF g a b e, of tk tr "[]"] first
  show ?thesis by (simp add: fetch_pages_scripted Cons)
qed

text \<open>
  Claim C2. Against a backend whose \<open>i\<close>-th answer is \<open>script i\<close>, the loop of
  \<open>get_thread_postings\<close> ends exactly when some answer stops it: an empty posting list, an
  error of the transport, or a page that is not a non-empty list ending in a posting with a
  \<open>pid\<close>. It ends at the first such answer, after that many requests, and an empty page is
  such an answer. When every answer is a page that lets the loop go on, the operation
  never returns: nothing in the code makes the cursor advance.
\<close>

theorem pagination_halts_at_first_stop:
  "((\<forall>i<n. continues (script i)) \<and> \<not> continues (script n) \<longrightarrow>
      (\<exists>r log. get_thread_postings L (scripted script) tk tr [] = Some (r, log) \<and>
               length log = n + 1)) \<and>
   ((\<forall>i. continues (script i)) \<longrightarrow>
      get_thread_postings L (scripted script) tk tr [] = None) \<and>
   (get_thread_postings L (scripted script) tk tr [] \<noteq> None \<longleftrightarrow>
      (\<exists>n. \<not> continues (script n))) \<and>
   \<not> continues (Inr (page_of []))"
proof -
  have A: "\<exists>r log. get_thread_postings L (scripted script) tk tr [] = Some (r, log) \<and>
               length log = n + 1"
    if "\<forall>i<n. continues (script i)" "\<not> continues (script n)" for n
  proof -
    from fetch_pages_halts [OF that] obtain r log where
      *: "fetch_pages (scripted script) tk tr [] = Some (r, log)" "length log = n + 1" by blast
    from get_thread_postings_Some [OF *(1)] *(2) show ?thesis by blast
  qed
  have B: "get_thread_postings L (scripted script) tk tr [] = None"
    if "\<forall>i. continues (script i)"
    using fetch_pages_diverges [OF that] by (rule get_thread_postings_None)
  have C: "get_thread_postings L (scripted script) tk tr [] \<noteq> None \<longleftrightarrow>
      (\<exists>n. \<not> continues (script n))"
  proof
    assume "get_thread_postings L (scripted script) tk tr [] \<noteq> None"
    with B show "\<exists>n. \<not> continues (script n)" by blast
  next
    assume "\<exists>n. \<not> continues (script n)"
    then obtain n where "\<not> continues (script n)" "\<forall>i<n. continues (script i)"
      by (auto simp: exists_least_iff [of "\<lambda>n. \<not> continues (script n)"])
    from A [OF this(2,1)] show "get_thread_postings L (scripted script) tk tr [] \<noteq> None"
      by auto
  qed
  have D: "\<not> continues (Inr (page_of []))"
    by (simp add: continues_iff page_of_def)
  from A B C D show ?thesis by blast
qed

theorem pagination_halts_at_first_stop_witness:
  "continues (replay example_pages 0) \<and> continues (replay example_pages 1) \<and>
   \<not> continues (replay example_pages 2) \<and>
   (\<exists>r log. get_thread_postings iso_lib example_pages_backend (IntId 1) (IntId 5) []
              = Some (r, log) \<and> length log = 2 + 1) \<and>
   continues (Inr (page_of [ticker_posting 1])) \<and>
   get_thread_postings iso_lib repeating_backend (IntId 1) (IntId 5) [] = None"
proof -
  have h0: "continues (replay example_pages 0)" by code_simp
  have h1: "continues (replay example_pages 1)" by code_simp
  have h2: "\<not> continues (replay example_pages 2)" by code_simp
  have h3: "continues (Inr (page_of [ticker_posting 1]))" by code_simp
  from h0 h1 have all: "\<forall>i<2. continues (replay example_pages i)"
    by (auto simp: less_2_cases_iff)
  from pagination_halts_at_first_stop [of 2 "replay example_pages" iso_lib "IntId 1" "IntId 5"]
    all h2
  have c1: "\<exists>r log. get_thread_postings iso_lib example_pages_backend (IntId 1) (IntId 5) []
              = Some (r, log) \<and> length log = 2 + 1"
    unfolding example_pages_backend_def by blast
  from pagination_halts_at_first_stop [of _ "\<lambda>i. Inr (page_of [ticker_posting 1])" iso_lib
      "IntId 1" "IntId 5"] h3
  have c2: "get_thread_postings iso_lib repeating_backend (IntId 1) (IntId 5) [] = None"
    unfolding repeating_backend_def by blast
  from h0 h1 h2 c1 h3 c2 show ?thesis by (intro conjI)
qed

text \<open>
  A backend that sends the same page of one posting again and again: the operation does
  not return.
\<close>

theorem pagination_never_halts_on_repeated_page:
  "continues (Inr (page_of [ticker_posting 1])) \<and>
   get_thread_postings iso_lib repeating_backend (IntId 1) (IntId 5) [] = None"
proof -
  have "\<forall>i::nat. continues (Inr (page_of [ticker_posting 1]))"
    by (simp add: continues_ticker_posting)
  from fetch_pages_diverges [OF this, of "IntId 1" "IntId 5"]
  have "get_thread_postings iso_lib repeating_backend (IntId 1) (IntId 5) [] = None"
    unfolding repeating_backend_def by (rule get_thread_postings_None)
  with continues_ticker_posting show ?thesis by simp
qed

text \<open>
  Claim C3. When the backend sends \<open>N\<close> non-empty pages and then an empty page,
  \<open>get_thread_postings\<close> issues \<open>N + 1\<close> requests and returns the deduplicated postings of
  the \<open>N\<close> pages taken together; for a thread without postings it returns the empty list
  after one request.
\<close>

theorem pagination_request_count:
  "((\<forall>pg \<in> set pages. pg \<noteq> [] \<and> (\<exists>c. subscript (last pg) ''pid'' = Inr c)) \<longrightarrow>
      (\<exists>log. get_thread_postings L (scripted (replay (map page_of pages @ page_of [] # rest)))
                tk tr []
              = Some (bind (remove_duplicates (concat pages)) (mapM (to_ticker_posting L tr)), log) \<and>
             length log = length pages + 1)) \<and>
   get_thread_postings L (scripted (replay (page_of [] # rest))) tk tr []
     = Some (Inr [], [Postings tk tr None])"
proof (intro conjI impI)
  assume "\<forall>pg \<in> set pages. pg \<noteq> [] \<and> (\<exists>c. subscript (last pg) ''pid'' = Inr c)"
  from fetch_pages_replay [OF this, of rest tk tr] obtain log where
    "fetch_pages (scripted (replay (map page_of pages @ page_of [] # rest))) tk tr []
       = Some (Inr (concat pages), log)" "length log = length pages + 1" by blast
  then show "\<exists>log. get_thread_postings L
                (scripted (replay (map page_of pages @ page_of [] # rest))) tk tr []
              = Some (bind (remove_duplicates (concat pages)) (mapM (to_ticker_posting L tr)), log) \<and>
             length log = length pages + 1"
    by (simp add: get_thread_postings_def)
next
  show "get_thread_postings L (scripted (replay (page_of [] # rest))) tk tr []
     = Some (Inr [], [Postings tk tr None])"
    by (simp add: get_thread_postings_def fetch_pages_scripted replay_nth paginate_empty_page
        remove_duplicates_def)
qed

theorem pagination_request_count_witness:
  "list_all (\<lambda>pg. pg \<noteq> [] \<and> (\<exists>c. subscript (last pg) ''pid'' = Inr c)) example_posting_lists \<and>
   length example_posting_lists = 2 \<and>
   (\<exists>log. get_thread_postings iso_lib example_pages_backend (IntId 1) (IntId 5) []
      = Some (bind (remove_duplicates (concat example_posting_lists))
                (mapM (to_ticker_posting iso_lib (IntId 5))), log) \<and>
      length log = 2 + 1) \<and>
   map_sum id (map posting_id)
     (bind (remove_duplicates (concat example_posting_lists))
        (mapM (to_ticker_posting iso_lib (IntId 5))))
     = Inr [JInt 1, JInt 2, JInt 3]"
proof -
  have h1: "list_all (\<lambda>pg. pg \<noteq> [] \<and> (\<exists>c. subscript (last pg) ''pid'' = Inr c))
      example_posting_lists"
    by (simp add: example_posting_lists_def ticker_posting_def)
  have h2: "length example_posting_lists = 2" by (simp add: example_posting_lists_def)
  have h3: "map_sum id (map posting_id)
     (bind (remove_duplicates (concat example_posting_lists))
        (mapM (to_ticker_posting iso_lib (IntId 5))))
     = Inr [JInt 1, JInt 2, JInt 3]" by code_simp
  from pagination_request_count [of example_posting_lists iso_lib "[]" "IntId 1" "IntId 5"] h1 h2
  have c: "\<exists>log. get_thread_postings iso_lib example_pages_backend (IntId 1) (IntId 5) []
      = Some (bind (remove_duplicates (concat example_posting_lists))
                (mapM (to_ticker_posting iso_lib (IntId 5))), log) \<and>
      length log = 2 + 1"
    by (simp add: example_pages_backend_def example_pages_def list_all_iff)
  from h1 h2 c h3 show ?thesis by (intro conjI)
qed

section \<open>Status filter\<close>

lemma list_all2_map_eq:
  "list_all2 (\<lambda>x y. g y = f x) xs ys \<Longrightarrow> map g ys = map f xs"
  by (induction xs ys rule: list_all2_induct) auto

lemma forum_posting_ids:
  assumes "backend (GetForumInfo a) s = (Inr (forum_info_response fid), s1)"
    and "backend (ThreadsByForumQuery fid 18 100000) s1 = (Inr (root_postings_response forest), s2)"
    and "get_forum_postings L backend a s = (Inr ps, s')"
  shows "map posting_id ps = map nid (filter is_published (siblings_first forest))"
proof -
  from get_forum_postings_typed [OF assms(1,2), of L] assms(3)
  have "mapM (\<lambda>n. to_forum_posting L (json_of n)) (filter is_published (siblings_first forest))
      = Inr ps" by simp
  then have "list_all2 (\<lambda>n q. to_forum_posting L (json_of n) = Inr q)
      (filter is_published (siblings_first forest)) ps"
    by (simp add: mapM_Inr_iff)
  then have "list_all2 (\<lambda>n q. posting_id q = nid n)
      (filter is_published (siblings_first forest)) ps"
    by (rule list_all2_mono) (use to_forum_posting_typed in blast)
  then show ?thesis by (rule list_all2_map_eq)
qed

lemma mset_siblings_first: "mset (siblings_first forest) = mset (concat (map preorder forest))"
  using mset_descendants [of "FNode JNull JNull JNull JNull JNull JNull JNull JNull forest"]
  by (simp add: siblings_first_def descendants_def)

text \<open>
  Claim C5. The forum operation returns a posting for a node of the reply tree exactly
  when the node's \<open>lifecycleStatus\<close> is \<open>Published\<close>: the ids of the result are the ids of
  the published nodes. The ticker operation has no such filter: every raw posting of the
  pages is represented in its result.
\<close>

theorem published_filter_only_in_forum:
  "(backend (GetForumInfo a) s = (Inr (forum_info_response fid), s1) \<and>
    backend (ThreadsByForumQuery fid 18 100000) s1 = (Inr (root_postings_response forest), s2) \<and>
    get_forum_postings L backend a s = (Inr ps, s') \<longrightarrow>
      map posting_id ps = map nid (filter is_published (siblings_first forest)) \<and>
      mset (map posting_id ps)
        = mset (map nid (filter is_published (concat (map preorder forest))))) \<and>
   (get_thread_postings L backend' tk tr s0 = Some (Inr qs, s0') \<longrightarrow>
      (\<exists>raw. fetch_pages backend' tk tr s0 = Some (Inr raw, s0') \<and>
         (\<forall>r \<in> set raw. \<exists>k. subscript r ''pid'' = Inr k \<and>
            (\<exists>q \<in> set qs. py_eq (posting_id q) k))))"
proof (intro conjI impI)
  assume a: "backend (GetForumInfo a) s = (Inr (forum_info_response fid), s1) \<and>
    backend (ThreadsByForumQuery fid 18 100000) s1 = (Inr (root_postings_response forest), s2) \<and>
    get_forum_postings L backend a s = (Inr ps, s')"
  then have a1: "backend (GetForumInfo a) s = (Inr (forum_info_response fid), s1)"
    and a2: "backend (ThreadsByForumQuery fid 18 100000) s1
               = (Inr (root_postings_response forest), s2)"
    and a3: "get_forum_postings L backend a s = (Inr ps, s')" by simp_all
  from forum_posting_ids [OF a1 a2 a3]
  show ids: "map posting_id ps = map nid (filter is_published (siblings_first forest))" .
  have "mset (map nid (filter is_published (siblings_first forest)))
      = mset (map nid (filter is_published (concat (map preorder forest))))"
    by (simp add: mset_siblings_first)
  with ids show "mset (map posting_id ps)
        = mset (map nid (filter is_published (concat (map preorder forest))))"
    by simp
next
  assume a: "get_thread_postings L backend' tk tr s0 = Some (Inr qs, s0')"
  from get_thread_postings_InrD [OF a] obtain raw vs where
    *: "fetch_pages backend' tk tr s0 = Some (Inr raw, s0')" "remove_duplicates raw = Inr vs"
       "mapM (to_ticker_posting L tr) vs = Inr qs" by blast
  from last_seen_wins [OF *(2,3)] *(1)
  show "\<exists>raw. fetch_pages backend' tk tr s0 = Some (Inr raw, s0') \<and>
         (\<forall>r \<in> set raw. \<exists>k. subscript r ''pid'' = Inr k \<and>
            (\<exists>q \<in> set qs. py_eq (posting_id q) k))"
    by blast
qed

theorem published_filter_only_in_forum_witness:
  "small_forum_backend (GetForumInfo (IntId 1)) []
     = (Inr (forum_info_response (JStr ''f'')), [GetForumInfo (IntId 1)]) \<and>
   small_forum_backend (ThreadsByForumQuery (JStr ''f'') 18 100000) [GetForumInfo (IntId 1)]
     = (Inr (root_postings_response small_forest),
        [GetForumInfo (IntId 1), ThreadsByForumQuery (JStr ''f'') 18 100000]) \<and>
   get_forum_postings iso_lib small_forum_backend (IntId 1) []
     = (Inr (projr (fst (get_forum_postings iso_lib small_forum_backend (IntId 1) []))),
        [GetForumInfo (IntId 1), ThreadsByForumQuery (JStr ''f'') 18 100000]) \<and>
   map nid (concat (map preorder small_forest))
     = [JStr ''a'', JStr ''b'', JStr ''d'', JStr ''c''] \<and>
   map lifecycleStatus (concat (map preorder small_forest))
     = [JStr ''Published'', JStr ''Deleted'', JStr ''Published'', JStr ''Published''] \<and>
   map posting_id (projr (fst (get_forum_postings iso_lib small_forum_backend (IntId 1) [])))
     = [JStr ''a'', JStr ''c'', JStr ''d''] \<and>
   get_thread_postings iso_lib example_pages_backend (IntId 1) (IntId 5) []
     = Some (Inr (projr (fst (the (get_thread_postings iso_lib example_pages_backend (IntId 1) (IntId 5) [])))),
             snd (the (get_thread_postings iso_lib example_pages_backend (IntId 1) (IntId 5) []))) \<and>
   (\<exists>raw. fetch_pages example_pages_backend (IntId 1) (IntId 5) []
            = Some (Inr raw, snd (the (get_thread_postings iso_lib example_pages_backend (IntId 1) (IntId 5) []))) \<and>
          length raw = 4 \<and>
          list_all (\<lambda>r. \<exists>k. subscript r ''pid'' = Inr k \<and>
             (\<exists>q \<in> set (projr (fst (the (get_thread_postings iso_lib example_pages_backend (IntId 1) (IntId 5) [])))).
                py_eq (posting_id q) k)) raw)"
proof -
  let ?f = "get_forum_postings iso_lib small_forum_backend (IntId 1) []"
  let ?log = "[GetForumInfo (IntId 1), ThreadsByForumQuery (JStr ''f'') 18 100000]"
  let ?t = "the (get_thread_postings iso_lib example_pages_backend (IntId 1) (IntId 5) [])"
  have h1: "small_forum_backend (GetForumInfo (IntId 1)) []
     = (Inr (forum_info_response (JStr ''f'')), [GetForumInfo (IntId 1)])"
    by (simp add: small_forum_backend_def scripted_def replay_def)
  have h2: "small_forum_backend (ThreadsByForumQuery (JStr ''f'') 18 100000) [GetForumInfo (IntId 1)]
     = (Inr (root_postings_response small_forest), ?log)"
    by (simp add: small_forum_backend_def scripted_def replay_def)
  have h3: "?f = (Inr (projr (fst ?f)), ?log)" by code_simp
  have h4: "map nid (concat (map preorder small_forest))
     = [JStr ''a'', JStr ''b'', JStr ''d'', JStr ''c'']" by code_simp
  have h5: "map lifecycleStatus (concat (map preorder small_forest))
     = [JStr ''Published'', JStr ''Deleted'', JStr ''Published'', JStr ''Published'']"
    by code_simp
  have h6: "map nid (filter is_published (siblings_first small_forest))
     = [JStr ''a'', JStr ''c'', JStr ''d'']" by code_simp
  have h7: "get_thread_postings iso_lib example_pages_backend (IntId 1) (IntId 5) []
     = Some (Inr (projr (fst ?t)), snd ?t)" by code_simp
  have h8: "map_option (length \<circ> projr \<circ> fst) (fetch_pages example_pages_backend (IntId 1) (IntId 5) [])
     = Some 4" by code_simp
  note T = published_filter_only_in_forum [of small_forum_backend "IntId 1" "[]" "JStr ''f''"
      "[GetForumInfo (IntId 1)]" small_forest ?log iso_lib "projr (fst ?f)" ?log
      example_pages_backend "IntId 1" "IntId 5" "[]" "projr (fst ?t)" "snd ?t"]
  from T h1 h2 h3 h6
  have c1: "map posting_id (projr (fst ?f)) = [JStr ''a'', JStr ''c'', JStr ''d'']" by simp
  from T h7 obtain raw where
    raw: "fetch_pages example_pages_backend (IntId 1) (IntId 5) [] = Some (Inr raw, snd ?t)"
      "\<forall>r \<in> set raw. \<exists>k. subscript r ''pid'' = Inr k \<and>
            (\<exists>q \<in> set (projr (fst ?t)). py_eq (posting_id q) k)"
    by blast
  from raw(1) h8 have len: "length raw = 4" by simp
  from raw len
  have c2: "\<exists>raw. fetch_pages example_pages_backend (IntId 1) (IntId 5) [] = Some (Inr raw, snd ?t) \<and>
          length raw = 4 \<and>
          list_all (\<lambda>r. \<exists>k. subscript r ''pid'' = Inr k \<and>
             (\<exists>q \<in> set (projr (fst ?t)). py_eq (posting_id q) k)) raw"
    by (auto simp: list_all_iff)
  from h1 h2 h3 h4 h5 c1 h7 c2 show ?thesis by (intro conjI)
qed

section \<open>Missing fields\<close>













end
